theory Spec2Isabelle
  imports Complex_Main "HOL-Library.AList" "HOL-Library.Sublist"
begin

section \<open>Python values used by the pipeline\<close>

text \<open>
  The exceptions the three pipeline stages can meet. \<open>LibraryError\<close> stands for a failure
  inside an external library (PDF, OCR, spreadsheet or language-model client); it carries the
  text of the exception.
\<close>

datatype pyerr =
    FileNotFoundError
  | SameFileError
  | PermissionError
  | InvalidFileException
  | ValueError
  | TypeError
  | OverflowError
  | ImportError
  | NameError
  | JSONDecodeError
  | IllegalCharacterError
  | OSError
  | LibraryError string

text \<open>
  A Python \<open>float\<close> is an IEEE double: a finite value (represented by the rational number it
  denotes), one of the two infinities, or not-a-number.
\<close>

datatype pyfloat = Finite rat | PosInf | NegInf | NaN

text \<open>
  Strings are modelled over ASCII. \<open>is_space\<close> is the ASCII part of \<open>str.isspace\<close>, which
  is what \<open>str.strip()\<close> removes: tab, line feed, vertical tab, form feed, carriage return,
  the four separators 0x1C..0x1F and the blank.
\<close>

definition is_space :: "char \<Rightarrow> bool" where
  "is_space c = (c \<in> set [CHR 0x09, CHR 0x0A, CHR 0x0B, CHR 0x0C, CHR 0x0D,
                          CHR 0x1C, CHR 0x1D, CHR 0x1E, CHR 0x1F, CHR 0x20])"

definition strip :: "string \<Rightarrow> string" where
  "strip s = rev (dropWhile is_space (rev (dropWhile is_space s)))"

definition lower_char :: "char \<Rightarrow> char" where
  "lower_char c =
     (case map_of (zip ''ABCDEFGHIJKLMNOPQRSTUVWXYZ'' ''abcdefghijklmnopqrstuvwxyz'') c of
        Some d \<Rightarrow> d
      | None \<Rightarrow> c)"

definition lower :: "string \<Rightarrow> string" where
  "lower s = map lower_char s"

text \<open>\<open>sub in s\<close> on strings: \<open>sub\<close> occurs in \<open>s\<close> as a contiguous block.\<close>

fun py_in :: "string \<Rightarrow> string \<Rightarrow> bool" where
  "py_in sub [] = (sub = [])"
| "py_in sub (c # cs) = (prefix sub (c # cs) \<or> py_in sub cs)"

section \<open>The worksheet\<close>

text \<open>
  What a cell of the spreadsheet library holds: nothing, a string (a formula is the string
  starting with \<open>=\<close>, since the workbook is loaded with \<open>data_only=False\<close>), a number, a
  boolean or a date. A cell also carries its style, here an index into the workbook's style
  table; assigning to \<open>cell.value\<close> leaves it alone.
\<close>

datatype cell_value =
    VNone
  | VStr string
  | VInt int
  | VFloat pyfloat
  | VBool bool
  | VDateTime nat

record cell =
  cvalue :: cell_value
  cstyle :: nat

definition empty_cell :: cell where
  "empty_cell = \<lparr>cvalue = VNone, cstyle = 0\<rparr>"

text \<open>
  The worksheet is the library's dictionary \<open>_cells\<close> from (row, column) to cell, in
  insertion order. Rows and columns count from 1. The worksheets considered have ordinary
  cells only: no merged ranges, whose covered cells the library makes read-only.
\<close>

type_synonym worksheet = "((nat \<times> nat) \<times> cell) list"

text \<open>
  \<open>worksheet.cell(row=r, column=c)\<close> returns the cell at that position and creates an empty
  one there when the dictionary has none, so it changes the worksheet.
\<close>

definition ws_cell :: "worksheet \<Rightarrow> nat \<Rightarrow> nat \<Rightarrow> cell \<times> worksheet" where
  "ws_cell ws row col =
     (case map_of ws (row, col) of
        Some c \<Rightarrow> (c, ws)
      | None \<Rightarrow> (empty_cell, ws @ [((row, col), empty_cell)]))"

text \<open>
  \<open>worksheet.max_row\<close>: 1 for a worksheet without cells, else the largest row that has a
  cell.
\<close>

definition max_row :: "worksheet \<Rightarrow> nat" where
  "max_row ws = (case map (fst \<circ> fst) ws of [] \<Rightarrow> 1 | r # rs \<Rightarrow> fold max rs r)"

text \<open>
  What the setter of \<open>cell.value\<close> does with a string: it keeps the first 32767 characters
  and raises \<open>IllegalCharacterError\<close> when one of them is a control character other than
  tab, line feed and carriage return (the library's pattern is
  \<^verbatim>\<open>[\000-\010]|[\013-\014]|[\016-\037]\<close>). Other values are bound as they are.
\<close>

definition illegal_char :: "char \<Rightarrow> bool" where
  "illegal_char c =
     (c \<in> set [CHR 0x00, CHR 0x01, CHR 0x02, CHR 0x03, CHR 0x04, CHR 0x05, CHR 0x06, CHR 0x07,
                CHR 0x08, CHR 0x0B, CHR 0x0C, CHR 0x0E, CHR 0x0F, CHR 0x10, CHR 0x11, CHR 0x12,
                CHR 0x13, CHR 0x14, CHR 0x15, CHR 0x16, CHR 0x17, CHR 0x18, CHR 0x19, CHR 0x1A,
                CHR 0x1B, CHR 0x1C, CHR 0x1D, CHR 0x1E, CHR 0x1F])"

definition check_string :: "string \<Rightarrow> pyerr + string" where
  "check_string s =
     (let v = take 32767 s
      in if list_ex illegal_char v then Inl IllegalCharacterError else Inr v)"

fun bind_value :: "cell_value \<Rightarrow> pyerr + cell_value" where
  "bind_value (VStr s) = (case check_string s of Inl e \<Rightarrow> Inl e | Inr v \<Rightarrow> Inr (VStr v))"
| "bind_value v = Inr v"

text \<open>
  \<open>worksheet.cell(row=r, column=c).value = v\<close>: the cell is fetched (and created) first, then
  the value is bound.
\<close>

definition store_value :: "worksheet \<Rightarrow> nat \<Rightarrow> nat \<Rightarrow> cell_value \<Rightarrow> worksheet" where
  "store_value ws row col v =
     (let (c, ws') = ws_cell ws row col
      in AList.update (row, col) (c\<lparr>cvalue := v\<rparr>) ws')"

definition set_value :: "worksheet \<Rightarrow> nat \<Rightarrow> nat \<Rightarrow> cell_value \<Rightarrow> pyerr + worksheet" where
  "set_value ws row col v =
     (case bind_value v of
        Inl e \<Rightarrow> Inl e
      | Inr v' \<Rightarrow> Inr (store_value ws row col v'))"

text \<open>What a reader sees at a position: the cell there, or an empty cell.\<close>

definition cell_at :: "worksheet \<Rightarrow> nat \<Rightarrow> nat \<Rightarrow> cell" where
  "cell_at ws row col = (case map_of ws (row, col) of Some c \<Rightarrow> c | None \<Rightarrow> empty_cell)"

section \<open>populate_template: finding the columns\<close>

text \<open>Python truthiness of a cell value (\<open>if cell_value\<close>).\<close>

fun truthy :: "cell_value \<Rightarrow> bool" where
  "truthy VNone = False"
| "truthy (VStr s) = (s \<noteq> [])"
| "truthy (VInt n) = (n \<noteq> 0)"
| "truthy (VFloat f) = (f \<noteq> Finite 0)"
| "truthy (VBool b) = b"
| "truthy (VDateTime d) = True"

fun is_str :: "cell_value \<Rightarrow> bool" where
  "is_str (VStr s) = True"
| "is_str v = False"

text \<open>
  The test of the first search:
  \<^verbatim>\<open>if cell_value and isinstance(cell_value, str): if "Line Item" in cell_value\<close>.
\<close>

definition exact_match :: "cell_value \<Rightarrow> bool" where
  "exact_match v =
     (truthy v \<and> is_str v \<and> (case v of VStr s \<Rightarrow> py_in ''Line Item'' s | _ \<Rightarrow> False))"

text \<open>
  The test of the fallback search:
  \<^verbatim>\<open>cell_lower = cell_value.lower(); if "line" in cell_lower and "item" in cell_lower\<close>.
\<close>

definition broad_match :: "cell_value \<Rightarrow> bool" where
  "broad_match v =
     (truthy v \<and> is_str v \<and>
      (case v of
         VStr s \<Rightarrow> (let cell_lower = lower s
                    in py_in ''line'' cell_lower \<and> py_in ''item'' cell_lower)
       | _ \<Rightarrow> False))"

text \<open>
  The template-analysis loop at the start of step 3 only prints, but it reads the 25 cells of
  rows 1..5, columns 1..5, which creates them.
\<close>

definition show_structure :: "worksheet \<Rightarrow> worksheet" where
  "show_structure ws =
     fold (\<lambda>row. fold (\<lambda>col w. snd (ws_cell w row col)) [1..<6]) [1..<6] ws"

text \<open>
  The inner loop of a search over the columns of one row: the first column whose cell passes
  the test, with \<open>break\<close> there.
\<close>

fun search_cols ::
  "(cell_value \<Rightarrow> bool) \<Rightarrow> nat \<Rightarrow> nat list \<Rightarrow> worksheet \<Rightarrow> nat option \<times> worksheet" where
  "search_cols m row [] ws = (None, ws)"
| "search_cols m row (col # cols) ws =
     (let (c, ws') = ws_cell ws row col
      in if m (cvalue c) then (Some col, ws') else search_cols m row cols ws')"

text \<open>
  The outer loop over the rows; \<open>if line_item_col_idx: break\<close> leaves it once the inner loop
  has set the column (columns start at 1, so a column that was set is true). The result is
  the pair (header_row, line_item_col_idx), or \<open>None\<close> while both are still \<open>None\<close>.
\<close>

fun search_rows ::
  "(cell_value \<Rightarrow> bool) \<Rightarrow> nat list \<Rightarrow> nat list \<Rightarrow> worksheet
     \<Rightarrow> (nat \<times> nat) option \<times> worksheet" where
  "search_rows m [] cols ws = (None, ws)"
| "search_rows m (row # rows) cols ws =
     (case search_cols m row cols ws of
        (Some col, ws') \<Rightarrow> (Some (row, col), ws')
      | (None, ws') \<Rightarrow> search_rows m rows cols ws')"

text \<open>
  The confirmation loop over the header of column B: it prints the first string in rows 1..5
  of column 2 and stops there.
\<close>

fun col_b_header :: "nat list \<Rightarrow> worksheet \<Rightarrow> worksheet" where
  "col_b_header [] ws = ws"
| "col_b_header (row # rows) ws =
     (let (c, ws') = ws_cell ws row 2
      in if truthy (cvalue c) \<and> is_str (cvalue c) then ws' else col_b_header rows ws')"

record columns =
  line_item_col_idx :: nat
  amount_col_idx :: nat
  header_row :: "nat option"

text \<open>Step 3 of \<open>populate_template\<close>.\<close>

definition find_columns :: "worksheet \<Rightarrow> columns \<times> worksheet" where
  "find_columns ws =
     (let ws1 = show_structure ws;
          (found, ws2) = search_rows exact_match [1..<11] [1..<11] ws1;
          (found, ws3) = (case found of
                            None \<Rightarrow> search_rows broad_match [1..<11] [1..<6] ws2
                          | Some hc \<Rightarrow> (Some hc, ws2));
          amount_col = 2;
          ws4 = col_b_header [1..<6] ws3;
          line_item_col = (case found of None \<Rightarrow> 1 | Some (r, c) \<Rightarrow> c);
          ws5 = snd (ws_cell ws4 1 line_item_col);
          ws6 = snd (ws_cell ws5 1 amount_col)
      in (\<lparr>line_item_col_idx = line_item_col, amount_col_idx = amount_col,
           header_row = map_option fst found\<rparr>, ws6))"

section \<open>populate_template: the insertion row\<close>

text \<open>
  The emptiness test of step 4:
  \<^verbatim>\<open>cell_value is None or str(cell_value).strip() == ''\<close>. The text of a number, a
  boolean or a date is never blank, so only \<open>None\<close> and a string of whitespace pass.
\<close>

fun is_blank :: "cell_value \<Rightarrow> bool" where
  "is_blank VNone = True"
| "is_blank (VStr s) = (strip s = [])"
| "is_blank v = False"

text \<open>
  The loop of step 4 over the rows of the line-item column: the first row whose cell is
  blank, with \<open>break\<close> there.
\<close>

fun scan_rows :: "nat \<Rightarrow> nat list \<Rightarrow> worksheet \<Rightarrow> nat option \<times> worksheet" where
  "scan_rows col [] ws = (None, ws)"
| "scan_rows col (row # rows) ws =
     (let (c, ws') = ws_cell ws row col
      in if is_blank (cvalue c) then (Some row, ws') else scan_rows col rows ws')"

text \<open>\<^verbatim>\<open>start_row = (header_row + 1) if header_row else 2\<close>.\<close>

definition start_row :: "nat option \<Rightarrow> nat" where
  "start_row hr = (case hr of None \<Rightarrow> 2 | Some h \<Rightarrow> if h \<noteq> 0 then h + 1 else 2)"

text \<open>
  Step 4. The bound of the range is computed once, before the loop; the fallback reads
  \<open>worksheet.max_row\<close> again after it.
\<close>

definition find_insert_row :: "columns \<Rightarrow> worksheet \<Rightarrow> nat \<times> worksheet" where
  "find_insert_row cs ws =
     (let (found, ws') =
            scan_rows (line_item_col_idx cs) [start_row (header_row cs)..<max_row ws + 20] ws
      in case found of
           Some row \<Rightarrow> (row, ws')
         | None \<Rightarrow> (max_row ws' + 1, ws'))"

section \<open>populate_template: writing and saving\<close>

text \<open>
  A line item as both callers build it: the dictionary with the string \<open>line_item\<close> and the
  float \<open>amount\<close>.
\<close>

record line_item_rec =
  line_item :: string
  amount :: pyfloat

text \<open>
  Step 5, over \<open>enumerate(line_items)\<close>: the description goes to the line-item column, then
  the amount to column 2, which is written as the literal 2 in the source.
  \<open>float(item['amount'])\<close> is the amount itself, since it is a float already. An assignment
  that raises ends the loop.
\<close>

fun write_items ::
  "nat \<Rightarrow> nat \<Rightarrow> (nat \<times> line_item_rec) list \<Rightarrow> worksheet \<Rightarrow> pyerr + worksheet" where
  "write_items insert_row col [] ws = Inr ws"
| "write_items insert_row col ((i, item) # rest) ws =
     (let row_idx = insert_row + i
      in case set_value ws row_idx col (VStr (line_item item)) of
           Inl e \<Rightarrow> Inl e
         | Inr ws1 \<Rightarrow>
            (case set_value ws1 row_idx 2 (VFloat (amount item)) of
               Inl e \<Rightarrow> Inl e
             | Inr ws2 \<Rightarrow> write_items insert_row col rest ws2))"

text \<open>
  The file system: what each path holds, and which paths can be written. A path names its
  file: two paths are the same file exactly when they are equal.
\<close>

datatype file_content = Spreadsheet worksheet | NotSpreadsheet

record filesystem =
  files :: "string \<Rightarrow> file_content option"
  writable :: "string \<Rightarrow> bool"

text \<open>\<open>shutil.copy2(src, dst)\<close>.\<close>

definition copy2 :: "string \<Rightarrow> string \<Rightarrow> filesystem \<Rightarrow> pyerr + filesystem" where
  "copy2 src dst fs =
     (case files fs src of
        None \<Rightarrow> Inl FileNotFoundError
      | Some f \<Rightarrow>
          if src = dst then Inl SameFileError
          else if \<not> writable fs dst then Inl PermissionError
          else Inr (fs\<lparr>files := (files fs)(dst \<mapsto> f)\<rparr>))"

text \<open>\<open>load_workbook(path, data_only=False)\<close>, followed by \<open>workbook.active\<close>.\<close>

definition load_workbook :: "string \<Rightarrow> filesystem \<Rightarrow> pyerr + worksheet" where
  "load_workbook path fs =
     (case files fs path of
        None \<Rightarrow> Inl FileNotFoundError
      | Some NotSpreadsheet \<Rightarrow> Inl InvalidFileException
      | Some (Spreadsheet ws) \<Rightarrow> Inr ws)"

text \<open>
  \<open>workbook.save(path)\<close>: the writer leaves out the cells that have neither a value nor a
  style. The other cells are taken as stored the way they are held; how the writer renders a
  number (16 significant digits, nothing for an infinity or a NaN) is not part of this model.
\<close>

definition save :: "worksheet \<Rightarrow> string \<Rightarrow> filesystem \<Rightarrow> pyerr + filesystem" where
  "save ws path fs =
     (if \<not> writable fs path then Inl PermissionError
      else Inr (fs\<lparr>files := (files fs)(path \<mapsto>
                  Spreadsheet (filter (\<lambda>(k, c). c \<noteq> empty_cell) ws))\<rparr>))"

text \<open>Steps 3 to 5 of \<open>populate_template\<close>, on the worksheet that was loaded.\<close>

definition populate_sheet :: "line_item_rec list \<Rightarrow> worksheet \<Rightarrow> pyerr + worksheet" where
  "populate_sheet line_items worksheet =
     (let (cs, ws1) = find_columns worksheet;
          (insert_row, ws2) = find_insert_row cs ws1
      in write_items insert_row (line_item_col_idx cs) (List.enumerate 0 line_items) ws2)"

text \<open>
  \<open>populate_template\<close>: every exception ends in the handler that returns \<open>False\<close>, with the
  file system as it was when the exception was raised.
\<close>

definition populate_template ::
  "line_item_rec list \<Rightarrow> string \<Rightarrow> string \<Rightarrow> filesystem \<Rightarrow> bool \<times> filesystem" where
  "populate_template line_items template_path output_path fs =
     (case copy2 template_path output_path fs of
        Inl e \<Rightarrow> (False, fs)
      | Inr fs1 \<Rightarrow>
         (case load_workbook output_path fs1 of
            Inl e \<Rightarrow> (False, fs1)
          | Inr worksheet \<Rightarrow>
             (case populate_sheet line_items worksheet of
                Inl e \<Rightarrow> (False, fs1)
              | Inr ws3 \<Rightarrow>
                 (case save ws3 output_path fs1 of
                    Inl e \<Rightarrow> (False, fs1)
                  | Inr fs2 \<Rightarrow> (True, fs2)))))"

text \<open>
  The local variables of \<open>populate_template\<close> that the properties below speak about: the
  columns chosen in step 3, the worksheet as step 4 finds it, and the insertion row.
\<close>

definition template_columns :: "worksheet \<Rightarrow> columns" where
  "template_columns ws = fst (find_columns ws)"

definition analysed_sheet :: "worksheet \<Rightarrow> worksheet" where
  "analysed_sheet ws = snd (find_columns ws)"

definition insertion_row :: "worksheet \<Rightarrow> nat" where
  "insertion_row ws = fst (find_insert_row (template_columns ws) (analysed_sheet ws))"

text \<open>The strings that the setter of \<open>cell.value\<close> accepts.\<close>

definition accepted_string :: "string \<Rightarrow> bool" where
  "accepted_string s = (\<not> list_ex illegal_char (take 32767 s))"

text \<open>The worksheet after a cell was asked for.\<close>

definition touch :: "worksheet \<Rightarrow> nat \<Rightarrow> nat \<Rightarrow> worksheet" where
  "touch ws row col = snd (ws_cell ws row col)"

text \<open>
  A worksheet as the library builds it: a dictionary has one entry for a key, and rows and
  columns start at 1.
\<close>

definition valid_ws :: "worksheet \<Rightarrow> bool" where
  "valid_ws ws = (distinct (map fst ws) \<and> list_all (\<lambda>((r, c), x). 1 \<le> r \<and> 1 \<le> c) ws)"

text \<open>The header cell that step 3 settles on, read off the template.\<close>

definition found_header :: "worksheet \<Rightarrow> (nat \<times> nat) option" where
  "found_header ws =
     (case find (\<lambda>(r, c). exact_match (cvalue (cell_at ws r c)))
             (List.product [1..<11] [1..<11]) of
        None \<Rightarrow> find (\<lambda>(r, c). broad_match (cvalue (cell_at ws r c)))
                 (List.product [1..<11] [1..<6])
      | Some hc \<Rightarrow> Some hc)"

text \<open>
  The value that a cell holds when step 5 has completed, or the exception that ended the
  loop.
\<close>

definition written_value ::
  "line_item_rec list \<Rightarrow> worksheet \<Rightarrow> nat \<Rightarrow> nat \<Rightarrow> pyerr + cell_value" where
  "written_value items ws row col =
     (case populate_sheet items ws of
        Inl e \<Rightarrow> Inl e
      | Inr out \<Rightarrow> Inr (cvalue (cell_at out row col)))"

text \<open>The worksheet after the loop of step 4.\<close>

definition scanned_sheet :: "worksheet \<Rightarrow> worksheet" where
  "scanned_sheet ws = snd (find_insert_row (template_columns ws) (analysed_sheet ws))"

section \<open>Example templates\<close>

text \<open>A title in A1, an amount header in B3, the line-item header in D3, a note in A4.\<close>

definition ws_c1 :: worksheet where
  "ws_c1 = [((1, 1), \<lparr>cvalue = VStr ''Cost Breakdown'', cstyle = 0\<rparr>),
            ((3, 2), \<lparr>cvalue = VStr ''Amount'', cstyle = 0\<rparr>),
            ((3, 4), \<lparr>cvalue = VStr ''Line Item'', cstyle = 0\<rparr>),
            ((4, 1), \<lparr>cvalue = VStr ''Line Items here'', cstyle = 0\<rparr>)]"

text \<open>Two templates without the exact header: one with a broad match in cell C2, one with none.\<close>

definition ws_c3a :: worksheet where
  "ws_c3a = [((1, 1), \<lparr>cvalue = VStr ''Budget'', cstyle = 0\<rparr>),
             ((2, 3), \<lparr>cvalue = VStr ''ITEM / LINE'', cstyle = 0\<rparr>),
             ((2, 4), \<lparr>cvalue = VStr ''line items'', cstyle = 0\<rparr>)]"

definition ws_c3b :: worksheet where
  "ws_c3b = [((1, 1), \<lparr>cvalue = VStr ''Budget'', cstyle = 0\<rparr>),
             ((1, 2), \<lparr>cvalue = VInt 7, cstyle = 0\<rparr>)]"

text \<open>
  A template with the header in A1, an item in A2, a cell of blanks in A3 and a total in A4;
  and one with the header and two items.
\<close>

definition ws_c4 :: worksheet where
  "ws_c4 = [((1, 1), \<lparr>cvalue = VStr ''Line Item'', cstyle = 0\<rparr>),
            ((2, 1), \<lparr>cvalue = VStr ''PERMITS'', cstyle = 0\<rparr>),
            ((3, 1), \<lparr>cvalue = VStr ''  '', cstyle = 0\<rparr>),
            ((4, 1), \<lparr>cvalue = VStr ''TOTAL'', cstyle = 0\<rparr>)]"

definition ws_c10 :: worksheet where
  "ws_c10 = [((1, 1), \<lparr>cvalue = VStr ''Line Item'', cstyle = 0\<rparr>),
             ((2, 1), \<lparr>cvalue = VStr ''PERMITS'', cstyle = 0\<rparr>),
             ((3, 1), \<lparr>cvalue = VStr ''EXCAVATION'', cstyle = 0\<rparr>)]"

text \<open>The worksheet stored at a path, for reading a saved file back.\<close>

definition saved_sheet :: "filesystem \<Rightarrow> string \<Rightarrow> worksheet" where
  "saved_sheet fs path = (case files fs path of Some (Spreadsheet ws) \<Rightarrow> ws | _ \<Rightarrow> [])"

text \<open>
  A file system that holds one template, \<open>template.xlsx\<close>, and lets every path be written.
\<close>

definition fs_with :: "worksheet \<Rightarrow> filesystem" where
  "fs_with ws = \<lparr>files = [''template.xlsx'' \<mapsto> Spreadsheet ws], writable = (\<lambda>p. True)\<rparr>"

text \<open>The two line items of the end-to-end scenario.\<close>

definition two_items :: "line_item_rec list" where
  "two_items = [\<lparr>line_item = ''PERMITS'', amount = Finite 10000\<rparr>,
                \<lparr>line_item = ''EXCAVATION'', amount = Finite 15000\<rparr>]"





definition ws_total :: worksheet where
  "ws_total = [((1, 1), \<lparr>cvalue = VStr ''Line Item'', cstyle = 0\<rparr>),
               ((3, 1), \<lparr>cvalue = VStr ''TOTAL'', cstyle = 4\<rparr>),
               ((3, 2), \<lparr>cvalue = VStr ''=SUM(B2:B2)'', cstyle = 4\<rparr>)]"

text \<open>A styled template: a bold header in A1, a formula with a number format in B7.\<close>

definition ws_styled :: worksheet where
  "ws_styled = [((1, 1), \<lparr>cvalue = VStr ''Line Item'', cstyle = 2\<rparr>),
                ((7, 2), \<lparr>cvalue = VStr ''=SUM(B2:B6)'', cstyle = 5\<rparr>)]"

section \<open>parse_with_ai\<close>

text \<open>
  What \<open>json.loads\<close> returns: \<open>None\<close>, a boolean, an integer of any size, a float, a string,
  a list, or a dictionary (its keys are distinct; a lookup takes the first entry).
\<close>

datatype pyval =
    PNone
  | PBool bool
  | PInt int
  | PFloat pyfloat
  | PStr string
  | PList "pyval list"
  | PDict "(string \<times> pyval) list"

text \<open>
  \<open>float(n)\<close> for an integer rounds to the nearest double, ties to even, and raises
  \<open>OverflowError\<close> when the result would not be finite: from \<open>2^1024 - 2^970\<close> on, the
  midpoint between the largest double and \<open>2^1024\<close>. \<open>excess_bits\<close> counts the bits beyond
  the 53 of the significand.
\<close>

fun excess_bits :: "nat \<Rightarrow> nat" where
  "excess_bits a = (if a < 2 ^ 53 then 0 else Suc (excess_bits (a div 2)))"

definition round_half_even :: "int \<Rightarrow> int" where
  "round_half_even n =
     (let a = nat \<bar>n\<bar>; e = excess_bits a
      in if e = 0 then n
         else let q = a div 2 ^ e; r = a mod 2 ^ e; h = 2 ^ (e - 1);
                  q' = (if h < r \<or> (r = h \<and> odd q) then q + 1 else q)
              in sgn n * int (q' * 2 ^ e))"

definition float_of_int :: "int \<Rightarrow> pyerr + pyfloat" where
  "float_of_int n =
     (if 2 ^ 1024 - 2 ^ 970 \<le> \<bar>n\<bar> then Inl OverflowError
      else Inr (Finite (of_int (round_half_even n))))"

text \<open>
  The library functions that the model takes as given: the JSON parser, \<open>float\<close> on a
  string (\<open>None\<close> where Python raises \<open>ValueError\<close>), and \<open>str\<close> on a number, a list or a
  dictionary.
\<close>

record ai_env =
  json_loads :: "string \<Rightarrow> pyerr + pyval"
  float_of_str :: "string \<Rightarrow> pyfloat option"
  repr_of :: "pyval \<Rightarrow> string"

text \<open>\<open>float(x)\<close>.\<close>

fun py_float :: "ai_env \<Rightarrow> pyval \<Rightarrow> pyerr + pyfloat" where
  "py_float env PNone = Inl TypeError"
| "py_float env (PBool b) = Inr (Finite (if b then 1 else 0))"
| "py_float env (PInt n) = float_of_int n"
| "py_float env (PFloat f) = Inr f"
| "py_float env (PStr s) = (case float_of_str env s of None \<Rightarrow> Inl ValueError | Some f \<Rightarrow> Inr f)"
| "py_float env (PList xs) = Inl TypeError"
| "py_float env (PDict kvs) = Inl TypeError"

text \<open>\<open>str(x)\<close>.\<close>

fun py_str :: "ai_env \<Rightarrow> pyval \<Rightarrow> string" where
  "py_str env (PStr s) = s"
| "py_str env PNone = ''None''"
| "py_str env (PBool b) = (if b then ''True'' else ''False'')"
| "py_str env v = repr_of env v"

text \<open>
  \<open>re.sub(r'```json\s*', '', text)\<close>: every fence \<open>```json\<close> goes, with the whitespace after
  it.
\<close>

function sub_fence_json :: "string \<Rightarrow> string" where
  "sub_fence_json [] = []"
| "sub_fence_json (c # cs) =
     (if prefix ''```json'' (c # cs) then sub_fence_json (dropWhile is_space (drop 7 (c # cs)))
      else c # sub_fence_json cs)"
  by pat_completeness auto
termination
  by (relation "measure length")
     (auto intro: le_less_trans[OF length_dropWhile_le])

text \<open>
  \<open>re.sub(r'```\s*$', '', text)\<close>: the first fence \<open>```\<close> that only whitespace follows goes,
  with that whitespace.
\<close>

fun sub_fence_end :: "string \<Rightarrow> string" where
  "sub_fence_end [] = []"
| "sub_fence_end (c # cs) =
     (if prefix ''```'' (c # cs) \<and> list_all is_space (drop 3 (c # cs)) then []
      else c # sub_fence_end cs)"

definition clean_response :: "string \<Rightarrow> string" where
  "clean_response response_text = strip (sub_fence_end (sub_fence_json (strip response_text)))"

text \<open>
  The validation loop. An entry that is no dictionary or lacks a key is passed over; an
  amount whose \<open>float\<close> raises \<open>ValueError\<close> or \<open>TypeError\<close> is skipped by the inner handler;
  any other exception leaves the loop.
\<close>

fun validate_items :: "ai_env \<Rightarrow> pyval list \<Rightarrow> line_item_rec list \<Rightarrow> pyerr + line_item_rec list"
  where
  "validate_items env [] validated_data = Inr validated_data"
| "validate_items env (PDict kvs # rest) validated_data =
     (case (map_of kvs ''line_item'', map_of kvs ''amount'') of
        (Some l, Some a) \<Rightarrow>
          (case py_float env a of
             Inr amt \<Rightarrow>
               validate_items env rest
                 (validated_data @ [\<lparr>line_item = strip (py_str env l), amount = amt\<rparr>])
           | Inl e \<Rightarrow>
               if e = ValueError \<or> e = TypeError then validate_items env rest validated_data
               else Inl e)
      | _ \<Rightarrow> validate_items env rest validated_data)"
| "validate_items env (item # rest) validated_data = validate_items env rest validated_data"

text \<open>
  \<open>parse_with_ai\<close>. The model, when there is one, is taken as the function from the document
  text to the text of the response to the prompt built around it, or to the exception that
  the call raises. Both outer handlers return the empty list.
\<close>

definition parse_with_ai ::
  "ai_env \<Rightarrow> (string \<Rightarrow> pyerr + string) option \<Rightarrow> string \<Rightarrow> line_item_rec list" where
  "parse_with_ai env model text_content =
     (case model of
        None \<Rightarrow> []
      | Some generate \<Rightarrow>
         (case generate text_content of
            Inl e \<Rightarrow> []
          | Inr response_text \<Rightarrow>
             (case json_loads env (clean_response response_text) of
                Inl e \<Rightarrow> []
              | Inr parsed_data \<Rightarrow>
                 (case parsed_data of
                    PList entries \<Rightarrow>
                      (case validate_items env entries [] of
                         Inl e \<Rightarrow> []
                       | Inr validated_data \<Rightarrow> validated_data)
                  | _ \<Rightarrow> []))))"

text \<open>
  Three responses of the language model, and the library functions on the strings that occur
  in them: an entry with the amount \<open>"N/A"\<close> beside a valid one, an entry with a blank
  description and a negative amount, and an entry whose amount is the integer \<open>10^400\<close>
  beside a valid one.
\<close>

definition resp_na :: string where
  \<open>resp_na = ''[{"line_item": "PERMITS", "amount": 10000}, {"line_item": "X", "amount": "N/A"}]''\<close>

definition resp_negative :: string where
  \<open>resp_negative = ''[{"line_item": "  ", "amount": -5}]''\<close>

definition resp_overflow :: string where
  \<open>resp_overflow = ''[{"line_item": "PERMITS", "amount": 10000}, {"line_item": "X", "amount": 1''
     @ replicate 400 (CHR ''0'') @ ''}]''\<close>

definition example_loads :: "string \<Rightarrow> pyerr + pyval" where
  "example_loads s =
     (if s = resp_na then
        Inr (PList [PDict [(''line_item'', PStr ''PERMITS''), (''amount'', PInt 10000)],
                    PDict [(''line_item'', PStr ''X''), (''amount'', PStr ''N/A'')]])
      else if s = resp_negative then
        Inr (PList [PDict [(''line_item'', PStr ''  ''), (''amount'', PInt (- 5))]])
      else if s = resp_overflow then
        Inr (PList [PDict [(''line_item'', PStr ''PERMITS''), (''amount'', PInt 10000)],
                    PDict [(''line_item'', PStr ''X''), (''amount'', PInt (10 ^ 400))]])
      else Inl JSONDecodeError)"

definition example_env :: ai_env where
  "example_env = \<lparr>json_loads = example_loads, float_of_str = (\<lambda>s. None), repr_of = (\<lambda>v. ''?'')\<rparr>"

section \<open>extract_text_from_file\<close>

text \<open>
  What the extractor meets outside itself: what \<open>Path.exists()\<close> gives for a path (it
  raises \<open>OSError\<close> where the file system refuses the question, for a name that is too
  long for instance), which optional libraries were imported, and what the libraries return
  for a path. \<open>pypdf2_available\<close> is the flag that the module binds only when the import of
  PyMuPDF has failed. For the OCR the left value is \<open>str(e)\<close> of the exception raised by
  opening or reading the image.
\<close>

record extract_env =
  path_exists :: "string \<Rightarrow> pyerr + bool"
  pymupdf_available :: bool
  pypdf2_available :: bool
  pytesseract_available :: bool
  fitz_pages :: "string \<Rightarrow> pyerr + string list"
  pypdf2_pages :: "string \<Rightarrow> pyerr + string list"
  image_to_string :: "string \<Rightarrow> string + string"
  excel_sheets :: "string \<Rightarrow> pyerr + (string \<times> string) list"

text \<open>
  \<open>Path(p).name\<close> and \<open>Path(p).suffix\<close>, for paths with \<open>/\<close> as separator: \<open>Path\<close> drops
  the empty components and the components \<open>.\<close>, the name is the last component left (the
  empty string when none is), and the suffix starts at the last dot of the name, when that
  dot is neither its first nor its last character.
\<close>

fun split_on :: "char \<Rightarrow> string \<Rightarrow> string list" where
  "split_on sep [] = [[]]"
| "split_on sep (c # cs) =
     (if c = sep then [] # split_on sep cs
      else (case split_on sep cs of
              [] \<Rightarrow> [[c]]
            | w # ws \<Rightarrow> (c # w) # ws))"

definition path_parts :: "string \<Rightarrow> string list" where
  "path_parts p = filter (\<lambda>s. s \<noteq> [] \<and> s \<noteq> ''.'') (split_on (CHR ''/'') p)"

definition path_name :: "string \<Rightarrow> string" where
  "path_name p = (if path_parts p = [] then [] else last (path_parts p))"

definition path_suffix :: "string \<Rightarrow> string" where
  "path_suffix p =
     (let name = path_name p;
          ext = rev (takeWhile (\<lambda>c. c \<noteq> CHR ''.'') (rev name))
      in if CHR ''.'' \<in> set name \<and> ext \<noteq> [] \<and> Suc (length ext) < length name
         then CHR ''.'' # ext else [])"

definition join_pages :: "string list \<Rightarrow> string" where
  "join_pages pages = concat (map (\<lambda>t. t @ [CHR 0x0A]) pages)"

text \<open>
  \<open>_extract_from_pdf\<close>. When PyMuPDF is there and fails, the test of \<open>PYPDF2_AVAILABLE\<close>
  raises \<open>NameError\<close>, since that name was never bound.
\<close>

definition extract_from_pdf :: "extract_env \<Rightarrow> string \<Rightarrow> pyerr + string" where
  "extract_from_pdf env file_path =
     (if pymupdf_available env then
        (case fitz_pages env file_path of
           Inr pages \<Rightarrow> Inr (join_pages pages)
         | Inl e \<Rightarrow> Inl NameError)
      else if pypdf2_available env then
        (case pypdf2_pages env file_path of
           Inr pages \<Rightarrow> Inr (join_pages pages)
         | Inl e \<Rightarrow> Inl ImportError)
      else Inl ImportError)"

text \<open>\<open>_extract_from_image\<close>: both failures return a message, not an exception.\<close>

definition extract_from_image :: "extract_env \<Rightarrow> string \<Rightarrow> pyerr + string" where
  "extract_from_image env file_path =
     (if \<not> pytesseract_available env then
        Inr (''[OCR NOT AVAILABLE] Image file: '' @ path_name file_path @
             ''. Please convert to PDF or use text-based documents for processing.'')
      else
        (case image_to_string env file_path of
           Inr t \<Rightarrow> Inr t
         | Inl msg \<Rightarrow> Inr (''[OCR FAILED] Image file: '' @ path_name file_path @
                          ''. Error: '' @ msg)))"

text \<open>\<open>_extract_from_excel\<close>: every exception gives the empty string.\<close>

definition extract_from_excel :: "extract_env \<Rightarrow> string \<Rightarrow> pyerr + string" where
  "extract_from_excel env file_path =
     (case excel_sheets env file_path of
        Inr sheets \<Rightarrow>
          Inr (concat (map (\<lambda>(sheet_name, df). ''Sheet: '' @ sheet_name @ [CHR 0x0A] @ df @
                              [CHR 0x0A, CHR 0x0A]) sheets))
      | Inl e \<Rightarrow> Inr [])"

text \<open>
  \<open>extract_text_from_file\<close>: the test for the file, and the exception it can raise itself,
  come before the \<open>try\<close>; inside the \<open>try\<close> every exception gives the empty string.
\<close>

definition extract_text_from_file :: "extract_env \<Rightarrow> string \<Rightarrow> pyerr + string" where
  "extract_text_from_file env file_path =
     (case path_exists env file_path of
        Inl e \<Rightarrow> Inl e
      | Inr False \<Rightarrow> Inl FileNotFoundError
      | Inr True \<Rightarrow>
        (let file_ext = lower (path_suffix file_path);
             r = (if file_ext = ''.pdf'' then extract_from_pdf env file_path
                  else if file_ext \<in> set [''.png'', ''.jpg'', ''.jpeg'', ''.bmp'', ''.tiff'']
                  then extract_from_image env file_path
                  else if file_ext \<in> set [''.xlsx'', ''.xls'']
                  then extract_from_excel env file_path
                  else Inl ValueError)
         in case r of Inl e \<Rightarrow> Inr [] | Inr t \<Rightarrow> Inr t))"

text \<open>
  Four surroundings: one where no path exists; one where every path exists, no optional
  library was imported and the spreadsheet reader fails; one like it where the OCR is there
  and fails; and one where the existence test itself raises.
\<close>

definition env_no_files :: extract_env where
  "env_no_files = \<lparr>path_exists = (\<lambda>p. Inr False), pymupdf_available = False,
     pypdf2_available = False, pytesseract_available = False,
     fitz_pages = (\<lambda>p. Inl ImportError), pypdf2_pages = (\<lambda>p. Inl ImportError),
     image_to_string = (\<lambda>p. Inl ''tesseract is not installed''),
     excel_sheets = (\<lambda>p. Inl (LibraryError ''not a workbook''))\<rparr>"

definition env_bare :: extract_env where
  "env_bare = env_no_files\<lparr>path_exists := (\<lambda>p. Inr True)\<rparr>"

definition env_ocr_fails :: extract_env where
  "env_ocr_fails = env_bare\<lparr>pytesseract_available := True\<rparr>"

definition env_name_too_long :: extract_env where
  "env_name_too_long = env_no_files\<lparr>path_exists := (\<lambda>p. Inl OSError)\<rparr>"


section \<open>Facts about the worksheet\<close>

lemma ws_cell_fst: "fst (ws_cell ws r c) = cell_at ws r c"
  by (simp add: ws_cell_def cell_at_def split: option.splits)

lemma cell_at_ws_cell: "cell_at (snd (ws_cell ws r c)) r' c' = cell_at ws r' c'"
  by (auto simp: ws_cell_def cell_at_def map_of_append split: option.splits if_splits)

lemma fold_max_ge: "(a::nat) \<le> fold max xs a"
  by (induction xs arbitrary: a) (auto intro: order_trans[OF max.cobounded2])

lemma fold_max_mem: "x \<in> set xs \<Longrightarrow> (x::nat) \<le> fold max xs a"
proof (induction xs arbitrary: a)
  case Nil
  then show ?case by simp
next
  case (Cons y ys)
  show ?case
  proof (cases "x = y")
    case True
    have "max y a \<le> fold max ys (max y a)" by (rule fold_max_ge)
    with True show ?thesis by simp
  next
    case False
    with Cons show ?thesis by simp
  qed
qed

lemma max_row_ge: "((r, c), x) \<in> set ws \<Longrightarrow> r \<le> max_row ws"
proof -
  assume a: "((r, c), x) \<in> set ws"
  then have m: "r \<in> set (map (fst \<circ> fst) ws)" by force
  show ?thesis
  proof (cases ws)
    case Nil
    with a show ?thesis by simp
  next
    case (Cons p ps)
    with m have "r = fst (fst p) \<or> r \<in> set (map (fst \<circ> fst) ps)" by auto
    then show ?thesis
      using Cons fold_max_ge[of "fst (fst p)" "map (fst \<circ> fst) ps"]
        fold_max_mem[of r "map (fst \<circ> fst) ps" "fst (fst p)"]
      by (auto simp: max_row_def)
  qed
qed

lemma beyond_max_row: "max_row ws < r \<Longrightarrow> cell_at ws r c = empty_cell"
proof -
  assume a: "max_row ws < r"
  have "map_of ws (r, c) = None"
  proof (cases "map_of ws (r, c)")
    case None
    then show ?thesis .
  next
    case (Some x)
    then have "((r, c), x) \<in> set ws" by (rule map_of_SomeD)
    then have "r \<le> max_row ws" by (rule max_row_ge)
    with a show ?thesis by simp
  qed
  then show ?thesis by (simp add: cell_at_def)
qed

lemma max_row_snoc: "max_row (ws @ [((r, c), x)]) = (if ws = [] then r else max (max_row ws) r)"
  by (cases ws) (auto simp: max_row_def max.commute)

lemma max_row_ws_cell: "1 \<le> r \<Longrightarrow> max_row (snd (ws_cell ws r c)) = max (max_row ws) r"
proof -
  assume r: "1 \<le> r"
  show ?thesis
  proof (cases "map_of ws (r, c)")
    case None
    then have "max_row (snd (ws_cell ws r c)) = (if ws = [] then r else max (max_row ws) r)"
      by (simp add: ws_cell_def max_row_snoc)
    moreover have "ws = [] \<Longrightarrow> max_row ws = 1" by (simp add: max_row_def)
    ultimately show ?thesis using r by (auto simp: max_def)
  next
    case (Some x)
    then have "((r, c), x) \<in> set ws" by (rule map_of_SomeD)
    then have "r \<le> max_row ws" by (rule max_row_ge)
    with Some show ?thesis by (simp add: ws_cell_def max.absorb1)
  qed
qed

lemma cell_at_store_value:
  "cell_at (store_value ws r c v) r' c' =
     (if r' = r \<and> c' = c then (cell_at ws r c)\<lparr>cvalue := v\<rparr> else cell_at ws r' c')"
  by (auto simp: store_value_def ws_cell_def cell_at_def update_conv' map_of_append
      split: option.splits)

lemma check_string_eq:
  "check_string s = (if accepted_string s then Inr (take 32767 s) else Inl IllegalCharacterError)"
  by (simp add: check_string_def accepted_string_def Let_def)

lemma set_value_str:
  "set_value ws r c (VStr s) =
     (if accepted_string s then Inr (store_value ws r c (VStr (take 32767 s)))
      else Inl IllegalCharacterError)"
  by (simp add: set_value_def check_string_eq)

lemma set_value_float: "set_value ws r c (VFloat f) = Inr (store_value ws r c (VFloat f))"
  by (simp add: set_value_def)

lemma ws_cell_eq: "ws_cell ws r c = (cell_at ws r c, touch ws r c)"
  by (simp add: touch_def prod_eq_iff ws_cell_fst)

lemma cell_at_touch: "cell_at (touch ws r c) = cell_at ws"
  by (simp add: touch_def fun_eq_iff cell_at_ws_cell)

lemma max_row_touch: "1 \<le> r \<Longrightarrow> max_row (touch ws r c) = max (max_row ws) r"
  by (simp add: touch_def max_row_ws_cell)

lemma search_cols_cell_at: "cell_at (snd (search_cols m row cols ws)) = cell_at ws"
  by (induction cols arbitrary: ws) (simp_all add: ws_cell_eq cell_at_touch)

lemma search_cols_fst:
  "fst (search_cols m row cols ws) = find (\<lambda>c. m (cvalue (cell_at ws row c))) cols"
  by (induction cols arbitrary: ws) (simp_all add: ws_cell_eq cell_at_touch)

lemma search_rows_cell_at: "cell_at (snd (search_rows m rows cols ws)) = cell_at ws"
proof (induction rows arbitrary: ws)
  case Nil
  then show ?case by simp
next
  case (Cons row rows)
  obtain found ws' where s: "search_cols m row cols ws = (found, ws')"
    by (cases "search_cols m row cols ws")
  then have c: "cell_at ws' = cell_at ws"
    using search_cols_cell_at[of m row cols ws] by simp
  show ?case
  proof (cases found)
    case None
    with s c Cons.IH[of ws'] show ?thesis by simp
  next
    case (Some col)
    with s c show ?thesis by simp
  qed
qed

lemma find_append_case:
  "find P (xs @ ys) = (case find P xs of None \<Rightarrow> find P ys | Some x \<Rightarrow> Some x)"
  by (induction xs) auto

lemma find_map_Pair:
  "find P (map (Pair r) cs) = map_option (Pair r) (find (\<lambda>c. P (r, c)) cs)"
  by (induction cs) auto

lemma search_rows_fst:
  "fst (search_rows m rows cols ws) =
     find (\<lambda>(r, c). m (cvalue (cell_at ws r c))) (List.product rows cols)"
proof (induction rows arbitrary: ws)
  case Nil
  then show ?case by simp
next
  case (Cons row rows)
  obtain found ws' where s: "search_cols m row cols ws = (found, ws')"
    by (cases "search_cols m row cols ws")
  then have c: "cell_at ws' = cell_at ws"
    using search_cols_cell_at[of m row cols ws] by simp
  from s have f: "find (\<lambda>c. m (cvalue (cell_at ws row c))) cols = found"
    using search_cols_fst[of m row cols ws] by simp
  show ?case
  proof (cases found)
    case None
    with s c f Cons.IH[of ws'] show ?thesis
      by (simp add: find_append_case find_map_Pair)
  next
    case (Some col)
    with s f show ?thesis
      by (simp add: find_append_case find_map_Pair)
  qed
qed

lemma find_first_sorted:
  "sorted_wrt (<) xs \<Longrightarrow> x \<in> set xs \<Longrightarrow> Q x \<Longrightarrow> (\<forall>y\<in>set xs. y < x \<longrightarrow> \<not> Q y)
     \<Longrightarrow> find Q xs = Some (x::nat)"
  by (induction xs) auto

lemma find_product_first:
  assumes "sorted_wrt (<) rows" "sorted_wrt (<) cols" "r \<in> set rows" "c \<in> set cols"
    and "P (r, c)"
    and "\<forall>r'\<in>set rows. \<forall>c'\<in>set cols. (r' < r \<or> (r' = r \<and> c' < c)) \<longrightarrow> \<not> P (r', c')"
  shows "find P (List.product rows cols) = Some (r::nat, c::nat)"
  using assms
proof (induction rows)
  case Nil
  then show ?case by simp
next
  case (Cons a rows)
  show ?case
  proof (cases "a = r")
    case True
    have "find (\<lambda>c. P (r, c)) cols = Some c"
      using Cons.prems by (intro find_first_sorted) auto
    with True show ?thesis by (simp add: find_append_case find_map_Pair)
  next
    case False
    with Cons.prems have lt: "a < r" by auto
    then have "\<forall>c'\<in>set cols. \<not> P (a, c')" using Cons.prems by auto
    then have "find (\<lambda>c. P (a, c)) cols = None" by (simp add: find_None_iff)
    moreover have "find P (List.product rows cols) = Some (r, c)"
      using Cons.prems False by (intro Cons.IH) auto
    ultimately show ?thesis by (simp add: find_append_case find_map_Pair)
  qed
qed

lemma find_product_none:
  "find P (List.product rows cols) = None \<longleftrightarrow> (\<forall>r\<in>set rows. \<forall>c\<in>set cols. \<not> P (r, c))"
  by (auto simp: find_None_iff)

lemma col_b_header_cell_at: "cell_at (col_b_header rows ws) = cell_at ws"
  by (induction rows arbitrary: ws) (simp_all add: ws_cell_eq cell_at_touch)

lemma show_structure_cell_at: "cell_at (show_structure ws) = cell_at ws"
proof -
  have inner: "cell_at (fold (\<lambda>col w. snd (ws_cell w row col)) cols w) = cell_at w" for row cols w
    by (induction cols arbitrary: w) (simp_all add: ws_cell_eq cell_at_touch)
  have outer: "cell_at (fold (\<lambda>row. fold (\<lambda>col w. snd (ws_cell w row col)) cols) rows w) = cell_at w"
    for rows cols w
    by (induction rows arbitrary: w) (simp_all add: inner)
  show ?thesis unfolding show_structure_def by (rule outer)
qed

lemma scan_rows_cell_at: "cell_at (snd (scan_rows col rows ws)) = cell_at ws"
  by (induction rows arbitrary: ws) (simp_all add: ws_cell_eq cell_at_touch)

lemma scan_rows_fst:
  "fst (scan_rows col rows ws) = find (\<lambda>r. is_blank (cvalue (cell_at ws r col))) rows"
  by (induction rows arbitrary: ws) (simp_all add: ws_cell_eq cell_at_touch)

section \<open>Facts about the column search\<close>

lemma touch_mono: "1 \<le> r \<Longrightarrow> max_row ws \<le> max_row (touch ws r c)"
  by (simp add: max_row_touch)

lemma touch_ge: "1 \<le> r \<Longrightarrow> r \<le> max_row (touch ws r c)"
  by (simp add: max_row_touch)

lemma search_cols_mono: "1 \<le> row \<Longrightarrow> max_row ws \<le> max_row (snd (search_cols m row cols ws))"
proof (induction cols arbitrary: ws)
  case Nil
  then show ?case by simp
next
  case (Cons col cols)
  have "max_row ws \<le> max_row (touch ws row col)" using Cons.prems by (rule touch_mono)
  also have "\<dots> \<le> max_row (snd (search_cols m row cols (touch ws row col)))"
    using Cons.prems by (rule Cons.IH)
  finally show ?case using Cons.prems by (simp add: ws_cell_eq touch_mono)
qed

lemma search_rows_mono:
  "\<forall>r\<in>set rows. 1 \<le> r \<Longrightarrow> max_row ws \<le> max_row (snd (search_rows m rows cols ws))"
proof (induction rows arbitrary: ws)
  case Nil
  then show ?case by simp
next
  case (Cons row rows)
  obtain found ws' where s: "search_cols m row cols ws = (found, ws')"
    by (cases "search_cols m row cols ws")
  have a: "max_row ws \<le> max_row ws'"
    using search_cols_mono[of row ws m cols] s Cons.prems by simp
  show ?case
  proof (cases found)
    case None
    have "max_row ws' \<le> max_row (snd (search_rows m rows cols ws'))"
      using Cons.prems by (intro Cons.IH) simp
    with a s None show ?thesis by simp
  next
    case (Some col)
    with a s show ?thesis by simp
  qed
qed

lemma col_b_header_mono: "\<forall>r\<in>set rows. 1 \<le> r \<Longrightarrow> max_row ws \<le> max_row (col_b_header rows ws)"
proof (induction rows arbitrary: ws)
  case Nil
  then show ?case by simp
next
  case (Cons row rows)
  have a: "max_row ws \<le> max_row (touch ws row 2)" using Cons.prems by (simp add: touch_mono)
  have "max_row (touch ws row 2) \<le> max_row (col_b_header rows (touch ws row 2))"
    using Cons.prems by (intro Cons.IH) simp
  with a show ?case by (simp add: ws_cell_eq)
qed

lemma show_structure_mono: "max_row ws \<le> max_row (show_structure ws)"
proof -
  have inner: "1 \<le> row \<Longrightarrow> max_row w \<le> max_row (fold (\<lambda>col w. snd (ws_cell w row col)) cols w)"
    for row cols w
  proof (induction cols arbitrary: w)
    case Nil
    then show ?case by simp
  next
    case (Cons col cols)
    have "max_row w \<le> max_row (touch w row col)" using Cons.prems by (rule touch_mono)
    also have "\<dots> \<le> max_row (fold (\<lambda>col w. snd (ws_cell w row col)) cols (touch w row col))"
      using Cons.prems by (rule Cons.IH)
    finally show ?case by (simp add: ws_cell_eq)
  qed
  have outer: "\<forall>r\<in>set rows. 1 \<le> r \<Longrightarrow>
      max_row w \<le> max_row (fold (\<lambda>row. fold (\<lambda>col w. snd (ws_cell w row col)) cols) rows w)"
    for rows cols w
  proof (induction rows arbitrary: w)
    case Nil
    then show ?case by simp
  next
    case (Cons row rows)
    let ?w = "fold (\<lambda>col w. snd (ws_cell w row col)) cols w"
    have "max_row w \<le> max_row ?w" using Cons.prems by (intro inner) simp
    also have "\<dots> \<le> max_row (fold (\<lambda>row. fold (\<lambda>col w. snd (ws_cell w row col)) cols) rows ?w)"
      using Cons.prems by (intro Cons.IH) simp
    finally show ?case by simp
  qed
  show ?thesis unfolding show_structure_def by (rule outer) simp
qed

lemma find_columns_unfold:
  "find_columns ws =
     (let r1 = search_rows exact_match [1..<11] [1..<11] (show_structure ws);
          r2 = (case fst r1 of
                  None \<Rightarrow> search_rows broad_match [1..<11] [1..<6] (snd r1)
                | Some hc \<Rightarrow> (Some hc, snd r1));
          lc = (case fst r2 of None \<Rightarrow> 1 | Some (r, c) \<Rightarrow> c)
      in (\<lparr>line_item_col_idx = lc, amount_col_idx = 2, header_row = map_option fst (fst r2)\<rparr>,
          touch (touch (col_b_header [1..<6] (snd r2)) 1 lc) 1 2))"
  unfolding find_columns_def Let_def case_prod_beta touch_def by (rule refl)

lemma find_columns_parts:
  fixes ws
  defines "r1 \<equiv> search_rows exact_match [1..<11] [1..<11] (show_structure ws)"
  defines "r2 \<equiv> (case fst r1 of
                  None \<Rightarrow> search_rows broad_match [1..<11] [1..<6] (snd r1)
                | Some hc \<Rightarrow> (Some hc, snd r1))"
  shows "fst r2 = found_header ws" and "cell_at (snd r2) = cell_at ws"
    and "max_row ws \<le> max_row (snd r2)"
proof -
  have f1: "fst r1 = find (\<lambda>(r, c). exact_match (cvalue (cell_at ws r c)))
                       (List.product [1..<11] [1..<11])"
    unfolding r1_def search_rows_fst show_structure_cell_at by (rule refl)
  have c1: "cell_at (snd r1) = cell_at ws"
    unfolding r1_def search_rows_cell_at show_structure_cell_at by (rule refl)
  have "max_row (show_structure ws) \<le> max_row (snd r1)"
    unfolding r1_def by (rule search_rows_mono) simp
  then have m1: "max_row ws \<le> max_row (snd r1)"
    using show_structure_mono[of ws] by (rule order_trans[rotated])
  have m2: "max_row (snd r1) \<le> max_row (snd (search_rows broad_match [1..<11] [1..<6] (snd r1)))"
    by (rule search_rows_mono) simp
  show "fst r2 = found_header ws"
    unfolding r2_def found_header_def f1[symmetric]
    by (cases "fst r1") (simp_all add: search_rows_fst c1 del: upt_Suc upt.simps)
  show "cell_at (snd r2) = cell_at ws"
    unfolding r2_def by (cases "fst r1") (simp_all add: search_rows_cell_at c1)
  show "max_row ws \<le> max_row (snd r2)"
    unfolding r2_def using m1 m2 by (cases "fst r1") (auto simp del: upt_Suc upt.simps)
qed

lemma find_columns_fst:
  "fst (find_columns ws) =
     \<lparr>line_item_col_idx = (case found_header ws of None \<Rightarrow> 1 | Some (r, c) \<Rightarrow> c),
      amount_col_idx = 2, header_row = map_option fst (found_header ws)\<rparr>"
  unfolding find_columns_unfold Let_def fst_conv find_columns_parts(1) by (rule refl)

lemma find_columns_cell_at: "cell_at (snd (find_columns ws)) = cell_at ws"
  unfolding find_columns_unfold Let_def snd_conv cell_at_touch col_b_header_cell_at
    find_columns_parts(2) by (rule refl)

lemma find_columns_max_row:
  "1 \<le> max_row (snd (find_columns ws)) \<and> max_row ws \<le> max_row (snd (find_columns ws))"
proof -
  have m4: "max_row w \<le> max_row (col_b_header [1..<6] w)" for w
    by (rule col_b_header_mono) simp
  have m5: "max_row w \<le> max_row (touch (touch (col_b_header [1..<6] w) 1 c) 1 2)
            \<and> 1 \<le> max_row (touch (touch (col_b_header [1..<6] w) 1 c) 1 2)" for w c
    using m4[of w] by (simp add: max_row_touch del: upt_Suc upt.simps)
  show ?thesis
    unfolding find_columns_unfold Let_def snd_conv
    using m5 find_columns_parts(3)[of ws] order_trans by blast
qed

lemma template_columns_eq:
  "template_columns ws =
     \<lparr>line_item_col_idx = (case found_header ws of None \<Rightarrow> 1 | Some (r, c) \<Rightarrow> c),
      amount_col_idx = 2, header_row = map_option fst (found_header ws)\<rparr>"
  unfolding template_columns_def by (rule find_columns_fst)

lemma analysed_cell_at: "cell_at (analysed_sheet ws) = cell_at ws"
  unfolding analysed_sheet_def by (rule find_columns_cell_at)

lemma analysed_max_row:
  "1 \<le> max_row (analysed_sheet ws)" "max_row ws \<le> max_row (analysed_sheet ws)"
  unfolding analysed_sheet_def using find_columns_max_row[of ws] by simp_all

lemma found_header_exact:
  assumes "1 \<le> r" "r \<le> 10" "1 \<le> c" "c \<le> 10"
    and "exact_match (cvalue (cell_at ws r c))"
    and "\<forall>r' c'. 1 \<le> r' \<and> r' \<le> 10 \<and> 1 \<le> c' \<and> c' \<le> 10 \<and> (r' < r \<or> (r' = r \<and> c' < c))
           \<longrightarrow> \<not> exact_match (cvalue (cell_at ws r' c'))"
  shows "found_header ws = Some (r, c)"
proof -
  have "find (\<lambda>(r, c). exact_match (cvalue (cell_at ws r c))) (List.product [1..<11] [1..<11])
        = Some (r, c)"
    using assms by (intro find_product_first) auto
  then show ?thesis by (simp add: found_header_def)
qed

lemma found_header_broad:
  assumes "\<forall>r c. 1 \<le> r \<and> r \<le> 10 \<and> 1 \<le> c \<and> c \<le> 10 \<longrightarrow> \<not> exact_match (cvalue (cell_at ws r c))"
    and "1 \<le> r" "r \<le> 10" "1 \<le> c" "c \<le> 5"
    and "broad_match (cvalue (cell_at ws r c))"
    and "\<forall>r' c'. 1 \<le> r' \<and> r' \<le> 10 \<and> 1 \<le> c' \<and> c' \<le> 5 \<and> (r' < r \<or> (r' = r \<and> c' < c))
           \<longrightarrow> \<not> broad_match (cvalue (cell_at ws r' c'))"
  shows "found_header ws = Some (r, c)"
proof -
  have "find (\<lambda>(r, c). exact_match (cvalue (cell_at ws r c))) (List.product [1..<11] [1..<11])
        = None"
    using assms(1) by (auto simp: find_None_iff)
  moreover have "find (\<lambda>(r, c). broad_match (cvalue (cell_at ws r c))) (List.product [1..<11] [1..<6])
        = Some (r, c)"
    using assms(2-) by (intro find_product_first) auto
  ultimately show ?thesis by (simp add: found_header_def)
qed

lemma found_header_none:
  assumes "\<forall>r c. 1 \<le> r \<and> r \<le> 10 \<and> 1 \<le> c \<and> c \<le> 10 \<longrightarrow> \<not> exact_match (cvalue (cell_at ws r c))"
    and "\<forall>r c. 1 \<le> r \<and> r \<le> 10 \<and> 1 \<le> c \<and> c \<le> 5 \<longrightarrow> \<not> broad_match (cvalue (cell_at ws r c))"
  shows "found_header ws = None"
proof -
  have "find (\<lambda>(r, c). exact_match (cvalue (cell_at ws r c))) (List.product [1..<11] [1..<11])
        = None"
    using assms(1) by (auto simp: find_None_iff)
  moreover have "find (\<lambda>(r, c). broad_match (cvalue (cell_at ws r c))) (List.product [1..<11] [1..<6])
        = None"
    using assms(2) by (auto simp: find_None_iff)
  ultimately show ?thesis by (simp add: found_header_def)
qed

lemma find_SomeE:
  "find P xs = Some x \<Longrightarrow> x \<in> set xs \<and> P x"
  by (induction xs) (auto split: if_splits)

lemma found_header_Some:
  assumes "found_header ws = Some (h, c)"
  shows "1 \<le> h \<and> h \<le> 10 \<and> 1 \<le> c \<and> c \<le> 10 \<and> truthy (cvalue (cell_at ws h c))"
proof (cases "find (\<lambda>(r, c). exact_match (cvalue (cell_at ws r c))) (List.product [1..<11] [1..<11])")
  case None
  with assms have "find (\<lambda>(r, c). broad_match (cvalue (cell_at ws r c))) (List.product [1..<11] [1..<6])
                   = Some (h, c)"
    by (simp add: found_header_def)
  from find_SomeE[OF this] show ?thesis by (auto simp: broad_match_def)
next
  case (Some hc)
  with assms have "find (\<lambda>(r, c). exact_match (cvalue (cell_at ws r c))) (List.product [1..<11] [1..<11])
                   = Some (h, c)"
    by (simp add: found_header_def)
  from find_SomeE[OF this] show ?thesis by (auto simp: exact_match_def)
qed

lemma cell_at_ws_c1:
  "cell_at ws_c1 r c =
    (if (r, c) = (1, 1) then \<lparr>cvalue = VStr ''Cost Breakdown'', cstyle = 0\<rparr>
     else if (r, c) = (3, 2) then \<lparr>cvalue = VStr ''Amount'', cstyle = 0\<rparr>
     else if (r, c) = (3, 4) then \<lparr>cvalue = VStr ''Line Item'', cstyle = 0\<rparr>
     else if (r, c) = (4, 1) then \<lparr>cvalue = VStr ''Line Items here'', cstyle = 0\<rparr>
     else empty_cell)"
  by (simp add: cell_at_def ws_c1_def)

lemma exact_examples:
  "\<not> exact_match (cvalue empty_cell)"
  "\<not> exact_match (VStr ''Cost Breakdown'')"
  "\<not> exact_match (VStr ''Amount'')"
  "exact_match (VStr ''Line Item'')"
  by (simp_all add: exact_match_def empty_cell_def)

text \<open>
  Claim C3. When no cell of rows 1..10, columns 1..10 holds a string containing
  \<open>Line Item\<close>, the first cell of rows 1..10, columns 1..5 in row-major order whose string
  contains both \<open>line\<close> and \<open>item\<close> without regard to case gives the description
  column and the header row; and when no cell passes either search, the description column
  is column 1 and no header row is recorded.
\<close>

theorem fallback_header_search:
  assumes "\<forall>r c. 1 \<le> r \<and> r \<le> 10 \<and> 1 \<le> c \<and> c \<le> 10
             \<longrightarrow> \<not> exact_match (cvalue (cell_at ws r c))"
  shows "(1 \<le> r \<and> r \<le> 10 \<and> 1 \<le> c \<and> c \<le> 5 \<and> broad_match (cvalue (cell_at ws r c)) \<and>
          (\<forall>r' c'. 1 \<le> r' \<and> r' \<le> 10 \<and> 1 \<le> c' \<and> c' \<le> 5 \<and> (r' < r \<or> (r' = r \<and> c' < c))
              \<longrightarrow> \<not> broad_match (cvalue (cell_at ws r' c')))
          \<longrightarrow> line_item_col_idx (template_columns ws) = c \<and>
              header_row (template_columns ws) = Some r) \<and>
         ((\<forall>r' c'. 1 \<le> r' \<and> r' \<le> 10 \<and> 1 \<le> c' \<and> c' \<le> 5
              \<longrightarrow> \<not> broad_match (cvalue (cell_at ws r' c')))
          \<longrightarrow> line_item_col_idx (template_columns ws) = 1 \<and>
              header_row (template_columns ws) = None)"
proof (intro conjI impI)
  assume a: "1 \<le> r \<and> r \<le> 10 \<and> 1 \<le> c \<and> c \<le> 5 \<and> broad_match (cvalue (cell_at ws r c)) \<and>
          (\<forall>r' c'. 1 \<le> r' \<and> r' \<le> 10 \<and> 1 \<le> c' \<and> c' \<le> 5 \<and> (r' < r \<or> (r' = r \<and> c' < c))
              \<longrightarrow> \<not> broad_match (cvalue (cell_at ws r' c')))"
  then have "found_header ws = Some (r, c)"
    using assms by (intro found_header_broad) blast+
  then show "line_item_col_idx (template_columns ws) = c"
    and "header_row (template_columns ws) = Some r"
    by (simp_all add: template_columns_eq)
next
  assume "\<forall>r' c'. 1 \<le> r' \<and> r' \<le> 10 \<and> 1 \<le> c' \<and> c' \<le> 5
              \<longrightarrow> \<not> broad_match (cvalue (cell_at ws r' c'))"
  then have "found_header ws = None"
    using assms by (intro found_header_none) blast+
  then show "line_item_col_idx (template_columns ws) = 1"
    and "header_row (template_columns ws) = None"
    by (simp_all add: template_columns_eq)
qed

lemma cell_at_ws_c3a:
  "cell_at ws_c3a r c =
    (if (r, c) = (1, 1) then \<lparr>cvalue = VStr ''Budget'', cstyle = 0\<rparr>
     else if (r, c) = (2, 3) then \<lparr>cvalue = VStr ''ITEM / LINE'', cstyle = 0\<rparr>
     else if (r, c) = (2, 4) then \<lparr>cvalue = VStr ''line items'', cstyle = 0\<rparr>
     else empty_cell)"
  by (simp add: cell_at_def ws_c3a_def)

lemma cell_at_ws_c3b:
  "cell_at ws_c3b r c =
    (if (r, c) = (1, 1) then \<lparr>cvalue = VStr ''Budget'', cstyle = 0\<rparr>
     else if (r, c) = (1, 2) then \<lparr>cvalue = VInt 7, cstyle = 0\<rparr>
     else empty_cell)"
  by (simp add: cell_at_def ws_c3b_def)

lemma match_examples:
  "\<not> exact_match (VStr ''Budget'')"
  "\<not> exact_match (VStr ''ITEM / LINE'')"
  "\<not> exact_match (VStr ''line items'')"
  "\<not> exact_match (VInt 7)"
  "\<not> broad_match (cvalue empty_cell)"
  "\<not> broad_match (VStr ''Budget'')"
  "\<not> broad_match (VInt 7)"
  "broad_match (VStr ''ITEM / LINE'')"
  by (simp_all add: exact_match_def broad_match_def empty_cell_def lower_def lower_char_def)

theorem fallback_header_search_witness:
  "line_item_col_idx (template_columns ws_c3a) = 3 \<and>
   header_row (template_columns ws_c3a) = Some 2 \<and>
   line_item_col_idx (template_columns ws_c3b) = 1 \<and>
   header_row (template_columns ws_c3b) = None"
proof -
  have ea: "\<forall>r c. 1 \<le> r \<and> r \<le> 10 \<and> 1 \<le> c \<and> c \<le> 10
             \<longrightarrow> \<not> exact_match (cvalue (cell_at ws_c3a r c))"
    by (simp add: cell_at_ws_c3a exact_examples match_examples)
  have eb: "\<forall>r c. 1 \<le> r \<and> r \<le> 10 \<and> 1 \<le> c \<and> c \<le> 10
             \<longrightarrow> \<not> exact_match (cvalue (cell_at ws_c3b r c))"
    by (simp add: cell_at_ws_c3b exact_examples match_examples)
  have ba: "\<forall>r' c'. 1 \<le> r' \<and> r' \<le> 10 \<and> 1 \<le> c' \<and> c' \<le> 5 \<and> (r' < 2 \<or> (r' = 2 \<and> c' < 3))
              \<longrightarrow> \<not> broad_match (cvalue (cell_at ws_c3a r' c'))"
    by (auto simp: cell_at_ws_c3a match_examples)
  have bm: "broad_match (cvalue (cell_at ws_c3a 2 3))"
    by (simp add: cell_at_ws_c3a match_examples)
  have bb: "\<forall>r' c'. 1 \<le> r' \<and> r' \<le> 10 \<and> 1 \<le> c' \<and> c' \<le> 5
              \<longrightarrow> \<not> broad_match (cvalue (cell_at ws_c3b r' c'))"
    by (simp add: cell_at_ws_c3b match_examples)
  show ?thesis
    using fallback_header_search[OF ea, of 2 3] fallback_header_search[OF eb] ba bm bb
    by simp
qed

lemma find_upt_Some:
  "find P [a..<b] = Some r \<longleftrightarrow> a \<le> r \<and> r < b \<and> P r \<and> (\<forall>r'. a \<le> r' \<and> r' < r \<longrightarrow> \<not> P r')"
proof
  assume "find P [a..<b] = Some r"
  then obtain i where i: "i < length [a..<b]" "P ([a..<b] ! i)" "r = [a..<b] ! i"
    "\<forall>j<i. \<not> P ([a..<b] ! j)"
    unfolding find_Some_iff by blast
  then have r: "r = a + i" "i < b - a" by simp_all
  have "\<not> P r'" if "a \<le> r' \<and> r' < r" for r'
  proof -
    from that r have "r' - a < i" by arith
    with i(4) have "\<not> P ([a..<b] ! (r' - a))" by blast
    moreover have "a + (r' - a) < b" using that r by arith
    then have "[a..<b] ! (r' - a) = a + (r' - a)" by (rule nth_upt)
    then have "[a..<b] ! (r' - a) = r'" using that by simp
    ultimately show ?thesis by simp
  qed
  with i r show "a \<le> r \<and> r < b \<and> P r \<and> (\<forall>r'. a \<le> r' \<and> r' < r \<longrightarrow> \<not> P r')" by simp
next
  assume a: "a \<le> r \<and> r < b \<and> P r \<and> (\<forall>r'. a \<le> r' \<and> r' < r \<longrightarrow> \<not> P r')"
  then have "r - a < length [a..<b] \<and> P ([a..<b] ! (r - a)) \<and> r = [a..<b] ! (r - a) \<and>
     (\<forall>j<r - a. \<not> P ([a..<b] ! j))" by auto
  then show "find P [a..<b] = Some r" unfolding find_Some_iff by blast
qed

lemma find_upt_None: "find P [a..<b] = None \<longleftrightarrow> (\<forall>r. a \<le> r \<and> r < b \<longrightarrow> \<not> P r)"
  by (auto simp: find_None_iff)

lemma find_upt_bounded:
  assumes "a \<le> r0" "r0 < b" "P r0"
  shows "\<exists>r. find P [a..<b] = Some r \<and> r \<le> r0"
proof (cases "find P [a..<b]")
  case None
  with assms show ?thesis by (simp add: find_upt_None)
next
  case (Some r)
  then have "\<forall>r'. a \<le> r' \<and> r' < r \<longrightarrow> \<not> P r'" by (simp add: find_upt_Some)
  with assms have "\<not> r0 < r" by blast
  with Some show ?thesis by simp
qed

lemma find_insert_row_fst:
  "fst (find_insert_row cs ws) =
     (case find (\<lambda>r. is_blank (cvalue (cell_at ws r (line_item_col_idx cs))))
             [start_row (header_row cs)..<max_row ws + 20] of
        Some row \<Rightarrow> row
      | None \<Rightarrow> max_row (snd (find_insert_row cs ws)) + 1)"
  unfolding find_insert_row_def Let_def case_prod_beta scan_rows_fst[symmetric]
  by (simp split: option.splits)

lemma find_insert_row_cell_at: "cell_at (snd (find_insert_row cs ws)) = cell_at ws"
  unfolding find_insert_row_def Let_def case_prod_beta
  by (simp add: scan_rows_cell_at split: option.splits)

lemma insertion_row_eq:
  "insertion_row ws =
     (case find (\<lambda>r. is_blank (cvalue (cell_at ws r (line_item_col_idx (template_columns ws)))))
             [start_row (header_row (template_columns ws))..<max_row (analysed_sheet ws) + 20] of
        Some row \<Rightarrow> row
      | None \<Rightarrow> max_row (scanned_sheet ws) + 1)"
  unfolding insertion_row_def scanned_sheet_def find_insert_row_fst analysed_cell_at
  by (rule refl)

lemma header_row_Some:
  assumes "header_row (template_columns ws) = Some h"
  shows "1 \<le> h" "h \<le> 10" "h \<le> max_row ws"
proof -
  from assms obtain c where f: "found_header ws = Some (h, c)"
    by (auto simp: template_columns_eq)
  from found_header_Some[OF f] show "1 \<le> h" "h \<le> 10" by simp_all
  have "cell_at ws h c \<noteq> empty_cell"
    using found_header_Some[OF f] by (auto simp: empty_cell_def)
  then show "h \<le> max_row ws" using beyond_max_row[of ws h c] by (cases "max_row ws < h") auto
qed

lemma start_row_template:
  "start_row (header_row (template_columns ws)) =
     (case header_row (template_columns ws) of Some h \<Rightarrow> h + 1 | None \<Rightarrow> 2)"
  using header_row_Some(1)[of ws] by (auto simp: start_row_def split: option.splits)

lemma valid_ws_max_row: "valid_ws ws \<Longrightarrow> 1 \<le> max_row ws"
proof (cases ws)
  case Nil
  then show ?thesis by (simp add: max_row_def)
next
  case (Cons p ps)
  assume "valid_ws ws"
  with Cons have "1 \<le> fst (fst p)" by (auto simp: valid_ws_def)
  moreover have "fst (fst p) \<le> max_row ws"
    using max_row_ge[of "fst (fst p)" "snd (fst p)" "snd p" ws] Cons by simp
  ultimately show ?thesis by simp
qed

lemma start_row_le:
  "start_row (header_row (template_columns ws)) \<le> max_row (analysed_sheet ws) + 1"
  "valid_ws ws \<Longrightarrow> start_row (header_row (template_columns ws)) \<le> max_row ws + 1"
proof -
  show "start_row (header_row (template_columns ws)) \<le> max_row (analysed_sheet ws) + 1"
  proof (cases "header_row (template_columns ws)")
    case None
    then show ?thesis using analysed_max_row(1)[of ws] by (simp add: start_row_def)
  next
    case (Some h)
    then show ?thesis
      using header_row_Some(3)[OF Some] analysed_max_row[of ws] by (simp add: start_row_def)
  qed
  show "start_row (header_row (template_columns ws)) \<le> max_row ws + 1" if "valid_ws ws"
  proof (cases "header_row (template_columns ws)")
    case None
    then show ?thesis using valid_ws_max_row[OF that] by (simp add: start_row_def)
  next
    case (Some h)
    then show ?thesis
      using header_row_Some(3)[OF Some] valid_ws_max_row[OF that] by (simp add: start_row_def)
  qed
qed

lemma blank_beyond: "max_row ws < r \<Longrightarrow> is_blank (cvalue (cell_at ws r c))"
  by (simp add: beyond_max_row empty_cell_def)

text \<open>
  Claim C4. The insertion row is the first row, from one below the header row (or from row 2
  without a header row) and below \<open>max_row + 20\<close>, whose cell in the description column is
  empty or whitespace; when that range has no such row it is \<open>worksheet.max_row + 1\<close>.
\<close>

theorem insertion_row_first_blank:
  "(let col = line_item_col_idx (template_columns ws);
        start = (case header_row (template_columns ws) of Some h \<Rightarrow> h + 1 | None \<Rightarrow> 2);
        bound = max_row (analysed_sheet ws) + 20;
        blank = (\<lambda>r. is_blank (cvalue (cell_at ws r col)))
    in (start \<le> insertion_row ws \<and> insertion_row ws < bound \<and> blank (insertion_row ws) \<and>
        (\<forall>r. start \<le> r \<and> r < insertion_row ws \<longrightarrow> \<not> blank r))
       \<or> ((\<forall>r. start \<le> r \<and> r < bound \<longrightarrow> \<not> blank r) \<and>
          insertion_row ws = max_row (scanned_sheet ws) + 1))"
proof -
  let ?P = "\<lambda>r. is_blank (cvalue (cell_at ws r (line_item_col_idx (template_columns ws))))"
  let ?a = "start_row (header_row (template_columns ws))"
  let ?b = "max_row (analysed_sheet ws) + 20"
  have "(?a \<le> insertion_row ws \<and> insertion_row ws < ?b \<and> ?P (insertion_row ws) \<and>
        (\<forall>r. ?a \<le> r \<and> r < insertion_row ws \<longrightarrow> \<not> ?P r))
       \<or> ((\<forall>r. ?a \<le> r \<and> r < ?b \<longrightarrow> \<not> ?P r) \<and>
          insertion_row ws = max_row (scanned_sheet ws) + 1)"
  proof (cases "find ?P [?a..<?b]")
    case None
    then have "insertion_row ws = max_row (scanned_sheet ws) + 1"
      by (simp add: insertion_row_eq)
    moreover from None have "\<forall>r. ?a \<le> r \<and> r < ?b \<longrightarrow> \<not> ?P r" by (simp only: find_upt_None)
    ultimately show ?thesis by blast
  next
    case (Some row)
    then have "insertion_row ws = row" by (simp add: insertion_row_eq)
    with Some have "find ?P [?a..<?b] = Some (insertion_row ws)" by simp
    then show ?thesis by (simp only: find_upt_Some) blast
  qed
  then show ?thesis unfolding Let_def start_row_template .
qed

text \<open>
  Claim C10. The loop of step 4 always finds its row, so the fallback is never taken: the
  insertion row is blank in the description column and lies at most one row below the last
  row of the worksheet (as step 4 finds it, and as the template was loaded).
\<close>

theorem insertion_fallback_unreachable:
  "fst (scan_rows (line_item_col_idx (template_columns ws))
          [start_row (header_row (template_columns ws))..<max_row (analysed_sheet ws) + 20]
          (analysed_sheet ws)) = Some (insertion_row ws) \<and>
   is_blank (cvalue (cell_at ws (insertion_row ws) (line_item_col_idx (template_columns ws)))) \<and>
   insertion_row ws \<le> max_row (analysed_sheet ws) + 1 \<and>
   (valid_ws ws \<longrightarrow> insertion_row ws \<le> max_row ws + 1)"
proof -
  let ?P = "\<lambda>r. is_blank (cvalue (cell_at ws r (line_item_col_idx (template_columns ws))))"
  let ?a = "start_row (header_row (template_columns ws))"
  let ?M = "max_row (analysed_sheet ws)"
  have pM: "?P (?M + 1)"
    using blank_beyond[of "analysed_sheet ws" "?M + 1"] by (simp add: analysed_cell_at)
  obtain r where r: "find ?P [?a..<?M + 20] = Some r" "r \<le> ?M + 1"
    using find_upt_bounded[of ?a "?M + 1" "?M + 20" ?P] start_row_le(1)[of ws] pM by auto
  then have ins: "insertion_row ws = r" by (simp add: insertion_row_eq)
  have 1: "fst (scan_rows (line_item_col_idx (template_columns ws)) [?a..<?M + 20]
          (analysed_sheet ws)) = Some (insertion_row ws)"
    using r ins by (simp add: scan_rows_fst analysed_cell_at)
  have 2: "?P (insertion_row ws)" using r(1) ins by (simp add: find_upt_Some)
  have 3: "insertion_row ws \<le> ?M + 1" using r ins by simp
  have 4: "insertion_row ws \<le> max_row ws + 1" if v: "valid_ws ws"
  proof -
    have "?P (max_row ws + 1)" using blank_beyond[of ws "max_row ws + 1"] by simp
    moreover have "max_row ws + 1 < ?M + 20" using analysed_max_row(2)[of ws] by simp
    ultimately obtain r' where "find ?P [?a..<?M + 20] = Some r'" "r' \<le> max_row ws + 1"
      using find_upt_bounded[of ?a "max_row ws + 1" "?M + 20" ?P] start_row_le(2)[OF v] by auto
    with r ins show ?thesis by simp
  qed
  from 1 2 3 4 show ?thesis by blast
qed

lemma ws_c4_columns:
  "line_item_col_idx (template_columns ws_c4) = 1" "header_row (template_columns ws_c4) = Some 1"
proof -
  have "found_header ws_c4 = Some (1, 1)"
    by (rule found_header_exact) (simp_all add: cell_at_def ws_c4_def exact_examples)
  then show "line_item_col_idx (template_columns ws_c4) = 1"
    "header_row (template_columns ws_c4) = Some 1"
    by (simp_all add: template_columns_eq)
qed

theorem insertion_row_first_blank_witness:
  "header_row (template_columns ws_c4) = Some 1 \<and> insertion_row ws_c4 = 3"
proof -
  let ?blank = "\<lambda>r. is_blank (cvalue (cell_at ws_c4 r 1))"
  let ?bound = "max_row (analysed_sheet ws_c4) + 20"
  have b2: "\<not> ?blank 2" by (simp add: cell_at_def ws_c4_def strip_def is_space_def)
  have b3: "?blank 3" by (simp add: cell_at_def ws_c4_def strip_def is_space_def)
  have "(2 \<le> insertion_row ws_c4 \<and> insertion_row ws_c4 < ?bound \<and> ?blank (insertion_row ws_c4) \<and>
        (\<forall>r. 2 \<le> r \<and> r < insertion_row ws_c4 \<longrightarrow> \<not> ?blank r))
       \<or> ((\<forall>r. 2 \<le> r \<and> r < ?bound \<longrightarrow> \<not> ?blank r) \<and>
          insertion_row ws_c4 = max_row (scanned_sheet ws_c4) + 1)"
    using insertion_row_first_blank[of ws_c4]
    unfolding Let_def ws_c4_columns option.case one_add_one .
  then have "insertion_row ws_c4 = 3"
  proof
    assume a: "2 \<le> insertion_row ws_c4 \<and> insertion_row ws_c4 < ?bound \<and>
        ?blank (insertion_row ws_c4) \<and> (\<forall>r. 2 \<le> r \<and> r < insertion_row ws_c4 \<longrightarrow> \<not> ?blank r)"
    then have "\<not> 3 < insertion_row ws_c4" using b3 by force
    moreover from a b2 have "insertion_row ws_c4 \<noteq> 2" by metis
    ultimately show ?thesis using a by arith
  next
    assume "(\<forall>r. 2 \<le> r \<and> r < ?bound \<longrightarrow> \<not> ?blank r) \<and>
          insertion_row ws_c4 = max_row (scanned_sheet ws_c4) + 1"
    then have "\<not> ?blank 3" by simp
    with b3 show ?thesis by simp
  qed
  with ws_c4_columns show ?thesis by simp
qed

theorem insertion_fallback_unreachable_witness:
  "valid_ws ws_c10 \<and> max_row ws_c10 = 3 \<and> insertion_row ws_c10 \<le> 4"
proof -
  have v: "valid_ws ws_c10" by (simp add: valid_ws_def ws_c10_def)
  have m: "max_row ws_c10 = 3" by (simp add: max_row_def ws_c10_def)
  from insertion_fallback_unreachable[of ws_c10] v m show ?thesis by simp
qed

lemma write_items_Cons:
  "write_items R col ((i, x) # rest) ws =
     (if accepted_string (line_item x)
      then write_items R col rest
             (store_value (store_value ws (R + i) col (VStr (take 32767 (line_item x))))
                (R + i) 2 (VFloat (amount x)))
      else Inl IllegalCharacterError)"
  by (simp add: Let_def set_value_str set_value_float)

lemma write_items_Inr_iff:
  "(\<exists>out. write_items R col (List.enumerate n items) ws = Inr out) \<longleftrightarrow>
     list_all (\<lambda>x. accepted_string (line_item x)) items"
  by (induction items arbitrary: n ws) (simp_all add: write_items_Cons del: write_items.simps(2))

lemma write_items_cell:
  "write_items R col (List.enumerate n items) ws = Inr out \<Longrightarrow>
   cell_at out r c =
    (if R + n \<le> r \<and> r < R + n + length items \<and> c = 2
     then (cell_at ws r c)\<lparr>cvalue := VFloat (amount (items ! (r - R - n)))\<rparr>
     else if R + n \<le> r \<and> r < R + n + length items \<and> c = col
     then (cell_at ws r c)\<lparr>cvalue := VStr (take 32767 (line_item (items ! (r - R - n))))\<rparr>
     else cell_at ws r c)"
proof (induction items arbitrary: n ws)
  case Nil
  then show ?case by auto
next
  case (Cons x xs)
  let ?ws1 = "store_value ws (R + n) col (VStr (take 32767 (line_item x)))"
  let ?ws2 = "store_value ?ws1 (R + n) 2 (VFloat (amount x))"
  from Cons.prems have step: "write_items R col (List.enumerate (Suc n) xs) ?ws2 = Inr out"
    by (simp add: write_items_Cons del: write_items.simps(2) split: if_splits)
  note ih = Cons.IH[OF step]
  have base: "cell_at ?ws2 r c =
     (if r = R + n \<and> c = 2 then (cell_at ws r c)\<lparr>cvalue := VFloat (amount x)\<rparr>
      else if r = R + n \<and> c = col
      then (cell_at ws r c)\<lparr>cvalue := VStr (take 32767 (line_item x))\<rparr>
      else cell_at ws r c)"
    by (simp add: cell_at_store_value)
  show ?case
  proof (cases "r = R + n")
    case True
    then show ?thesis unfolding ih base by simp
  next
    case False
    show ?thesis
    proof (cases "R + Suc n \<le> r \<and> r < R + Suc n + length xs")
      case True
      then have "r - R - n = Suc (r - R - Suc n)" by arith
      with True False show ?thesis unfolding ih base by simp
    next
      case False
      with \<open>r \<noteq> R + n\<close> have "\<not> (R + n \<le> r \<and> r < R + n + length (x # xs))" by simp
      with False \<open>r \<noteq> R + n\<close> show ?thesis unfolding ih base by simp
    qed
  qed
qed

lemma populate_sheet_eq:
  "populate_sheet items ws =
     write_items (insertion_row ws) (line_item_col_idx (template_columns ws))
       (List.enumerate 0 items) (scanned_sheet ws)"
  unfolding populate_sheet_def Let_def case_prod_beta insertion_row_def scanned_sheet_def
    template_columns_def analysed_sheet_def by (rule refl)

lemma scanned_cell_at: "cell_at (scanned_sheet ws) = cell_at ws"
  unfolding scanned_sheet_def find_insert_row_cell_at analysed_cell_at by (rule refl)

lemma populate_sheet_Inr_iff:
  "(\<exists>out. populate_sheet items ws = Inr out) \<longleftrightarrow>
     list_all (\<lambda>x. accepted_string (line_item x)) items"
  unfolding populate_sheet_eq by (rule write_items_Inr_iff)

lemma populate_sheet_cell:
  assumes "populate_sheet items ws = Inr out"
  shows "cell_at out r c =
    (if insertion_row ws \<le> r \<and> r < insertion_row ws + length items \<and> c = 2
     then (cell_at ws r c)\<lparr>cvalue := VFloat (amount (items ! (r - insertion_row ws)))\<rparr>
     else if insertion_row ws \<le> r \<and> r < insertion_row ws + length items
             \<and> c = line_item_col_idx (template_columns ws)
     then (cell_at ws r c)
            \<lparr>cvalue := VStr (take 32767 (line_item (items ! (r - insertion_row ws))))\<rparr>
     else cell_at ws r c)"
  using write_items_cell[OF assms[unfolded populate_sheet_eq], of r c]
  by (simp add: scanned_cell_at)

lemma two_items_accepted: "list_all (\<lambda>x. accepted_string (line_item x)) two_items"
  by (simp add: two_items_def accepted_string_def illegal_char_def)

text \<open>
  Claim C1. When a cell of rows 1..10, columns 1..10 holds a string containing
  \<open>Line Item\<close>, the first such cell in row-major order gives the description column and
  the header row; and whatever the template holds, the amount column is column 2 and the
  amounts are written to column 2 (the writes complete exactly when the cell setter accepts
  every description).
\<close>

theorem line_item_header_first_match:
  "amount_col_idx (template_columns ws) = 2 \<and>
   ((\<exists>out. populate_sheet items ws = Inr out) \<longleftrightarrow>
      list_all (\<lambda>x. accepted_string (line_item x)) items) \<and>
   (\<forall>out i. populate_sheet items ws = Inr out \<and> i < length items \<longrightarrow>
      cvalue (cell_at out (insertion_row ws + i) 2) = VFloat (amount (items ! i))) \<and>
   (1 \<le> r \<and> r \<le> 10 \<and> 1 \<le> c \<and> c \<le> 10 \<and> exact_match (cvalue (cell_at ws r c)) \<and>
    (\<forall>r' c'. 1 \<le> r' \<and> r' \<le> 10 \<and> 1 \<le> c' \<and> c' \<le> 10 \<and> (r' < r \<or> (r' = r \<and> c' < c))
        \<longrightarrow> \<not> exact_match (cvalue (cell_at ws r' c')))
    \<longrightarrow> line_item_col_idx (template_columns ws) = c \<and>
        header_row (template_columns ws) = Some r)"
proof -
  have "amount_col_idx (template_columns ws) = 2" by (simp add: template_columns_eq)
  moreover have "cvalue (cell_at out (insertion_row ws + i) 2) = VFloat (amount (items ! i))"
    if "populate_sheet items ws = Inr out \<and> i < length items" for out i
    using that by (simp add: populate_sheet_cell[of items ws out])
  moreover have "line_item_col_idx (template_columns ws) = c \<and>
        header_row (template_columns ws) = Some r"
    if "1 \<le> r \<and> r \<le> 10 \<and> 1 \<le> c \<and> c \<le> 10 \<and> exact_match (cvalue (cell_at ws r c)) \<and>
    (\<forall>r' c'. 1 \<le> r' \<and> r' \<le> 10 \<and> 1 \<le> c' \<and> c' \<le> 10 \<and> (r' < r \<or> (r' = r \<and> c' < c))
        \<longrightarrow> \<not> exact_match (cvalue (cell_at ws r' c')))"
  proof -
    from that have "found_header ws = Some (r, c)" by (intro found_header_exact) blast+
    then show ?thesis by (simp add: template_columns_eq)
  qed
  ultimately show ?thesis using populate_sheet_Inr_iff[of items ws] by blast
qed

theorem line_item_header_first_match_witness:
  "amount_col_idx (template_columns ws_c1) = 2 \<and>
   (\<exists>out. populate_sheet two_items ws_c1 = Inr out \<and>
      cvalue (cell_at out (insertion_row ws_c1 + 1) 2) = VFloat (Finite 15000)) \<and>
   line_item_col_idx (template_columns ws_c1) = 4 \<and>
   header_row (template_columns ws_c1) = Some 3"
proof -
  note t = line_item_header_first_match[of ws_c1 two_items 3 4]
  have "\<forall>r' c'. 1 \<le> r' \<and> r' \<le> 10 \<and> 1 \<le> c' \<and> c' \<le> 10 \<and> (r' < 3 \<or> (r' = 3 \<and> c' < 4))
        \<longrightarrow> \<not> exact_match (cvalue (cell_at ws_c1 r' c'))"
    by (auto simp: cell_at_ws_c1 exact_examples)
  moreover have "exact_match (cvalue (cell_at ws_c1 3 4))"
    by (simp add: cell_at_ws_c1 exact_examples)
  ultimately have h: "line_item_col_idx (template_columns ws_c1) = 4 \<and>
      header_row (template_columns ws_c1) = Some 3"
    using t by simp
  from t two_items_accepted obtain out where out: "populate_sheet two_items ws_c1 = Inr out"
    by blast
  have "1 < length two_items" by (simp add: two_items_def)
  with t out have "cvalue (cell_at out (insertion_row ws_c1 + 1) 2)
        = VFloat (amount (two_items ! 1))"
    by blast
  then have "cvalue (cell_at out (insertion_row ws_c1 + 1) 2) = VFloat (Finite 15000)"
    by (simp add: two_items_def)
  with t h out show ?thesis by blast
qed

lemma distinct_touch: "distinct (map fst ws) \<Longrightarrow> distinct (map fst (touch ws r c))"
  by (auto simp: touch_def ws_cell_def map_of_eq_None_iff split: option.splits)

lemma distinct_store_value:
  "distinct (map fst ws) \<Longrightarrow> distinct (map fst (store_value ws r c v))"
proof -
  assume "distinct (map fst ws)"
  then have "distinct (map fst (touch ws r c))" by (rule distinct_touch)
  then show ?thesis
    unfolding store_value_def ws_cell_eq by (simp add: distinct_update)
qed

lemma search_cols_distinct:
  "distinct (map fst ws) \<Longrightarrow> distinct (map fst (snd (search_cols m row cols ws)))"
  by (induction cols arbitrary: ws) (simp_all add: ws_cell_eq distinct_touch)

lemma search_rows_distinct:
  "distinct (map fst ws) \<Longrightarrow> distinct (map fst (snd (search_rows m rows cols ws)))"
proof (induction rows arbitrary: ws)
  case Nil
  then show ?case by simp
next
  case (Cons row rows)
  obtain found ws' where s: "search_cols m row cols ws = (found, ws')"
    by (cases "search_cols m row cols ws")
  then have d: "distinct (map fst ws')"
    using search_cols_distinct[OF Cons.prems, of m row cols] by simp
  show ?case
  proof (cases found)
    case None
    with s Cons.IH[OF d] show ?thesis by simp
  next
    case (Some col)
    with s d show ?thesis by simp
  qed
qed

lemma col_b_header_distinct:
  "distinct (map fst ws) \<Longrightarrow> distinct (map fst (col_b_header rows ws))"
  by (induction rows arbitrary: ws) (simp_all add: ws_cell_eq distinct_touch)

lemma show_structure_distinct:
  assumes "distinct (map fst ws)"
  shows "distinct (map fst (show_structure ws))"
proof -
  have inner: "distinct (map fst w) \<Longrightarrow>
      distinct (map fst (fold (\<lambda>col w. snd (ws_cell w row col)) cols w))" for row cols w
    by (induction cols arbitrary: w) (simp_all add: ws_cell_eq distinct_touch)
  have outer: "distinct (map fst w) \<Longrightarrow>
      distinct (map fst (fold (\<lambda>row. fold (\<lambda>col w. snd (ws_cell w row col)) cols) rows w))"
    for rows cols w
    by (induction rows arbitrary: w) (simp_all add: inner)
  show ?thesis unfolding show_structure_def using assms by (rule outer)
qed

lemma scan_rows_distinct:
  "distinct (map fst ws) \<Longrightarrow> distinct (map fst (snd (scan_rows col rows ws)))"
  by (induction rows arbitrary: ws) (simp_all add: ws_cell_eq distinct_touch)

lemma write_items_distinct:
  "distinct (map fst ws) \<Longrightarrow> write_items R col xs ws = Inr out \<Longrightarrow> distinct (map fst out)"
proof (induction xs arbitrary: ws)
  case Nil
  then show ?case by simp
next
  case (Cons p xs)
  obtain i x where p: "p = (i, x)" by (cases p)
  let ?ws2 = "store_value (store_value ws (R + i) col (VStr (take 32767 (line_item x))))
                (R + i) 2 (VFloat (amount x))"
  from Cons.prems(2) have "write_items R col xs ?ws2 = Inr out"
    unfolding p write_items_Cons by (simp split: if_splits)
  moreover have "distinct (map fst ?ws2)"
    by (intro distinct_store_value Cons.prems(1))
  ultimately show ?case by (rule Cons.IH[rotated])
qed


lemma find_columns_distinct:
  assumes "distinct (map fst ws)"
  shows "distinct (map fst (snd (find_columns ws)))"
proof -
  let ?r1 = "search_rows exact_match [1..<11] [1..<11] (show_structure ws)"
  have d1: "distinct (map fst (snd ?r1))"
    by (intro search_rows_distinct show_structure_distinct assms)
  have d2: "distinct (map fst (snd (case fst ?r1 of
                  None \<Rightarrow> search_rows broad_match [1..<11] [1..<6] (snd ?r1)
                | Some hc \<Rightarrow> (Some hc, snd ?r1))))"
    using d1 search_rows_distinct[OF d1, of broad_match "[1..<11]" "[1..<6]"]
    by (cases "fst ?r1") (simp_all del: upt_Suc upt.simps)
  show ?thesis
    unfolding find_columns_unfold Let_def snd_conv
    by (intro distinct_touch col_b_header_distinct d2)
qed

lemma populate_sheet_distinct:
  assumes "distinct (map fst ws)" "populate_sheet items ws = Inr out"
  shows "distinct (map fst out)"
proof -
  have "distinct (map fst (analysed_sheet ws))"
    unfolding analysed_sheet_def using assms(1) by (rule find_columns_distinct)
  then have "distinct (map fst (scanned_sheet ws))"
    unfolding scanned_sheet_def find_insert_row_def Let_def case_prod_beta
    by (auto split: option.splits intro: scan_rows_distinct)
  then show ?thesis using assms(2) unfolding populate_sheet_eq by (rule write_items_distinct)
qed


lemma cell_at_Cons:
  "cell_at (p # ws) r c = (if fst p = (r, c) then snd p else cell_at ws r c)"
  by (cases p) (auto simp: cell_at_def)

lemma cell_at_absent: "(r, c) \<notin> fst ` set ws \<Longrightarrow> cell_at ws r c = empty_cell"
  by (simp add: cell_at_def map_of_eq_None_iff[THEN iffD2])

lemma cell_at_saved:
  assumes "distinct (map fst ws)"
  shows "cell_at (filter (\<lambda>(k, c). c \<noteq> empty_cell) ws) = cell_at ws"
proof -
  have "cell_at (filter (\<lambda>(k, c). c \<noteq> empty_cell) ws) r c = cell_at ws r c" for r c
    using assms
  proof (induction ws)
    case Nil
    then show ?case by simp
  next
    case (Cons p ws)
    show ?case
    proof (cases "fst p = (r, c)")
      case True
      with Cons.prems have "(r, c) \<notin> fst ` set (filter (\<lambda>(k, c). c \<noteq> empty_cell) ws)"
        by auto
      then have "cell_at (filter (\<lambda>(k, c). c \<noteq> empty_cell) ws) r c = empty_cell"
        by (rule cell_at_absent)
      with True show ?thesis by (cases p) (auto simp: cell_at_Cons)
    next
      case False
      with Cons show ?thesis by (cases p) (auto simp: cell_at_Cons)
    qed
  qed
  then show ?thesis by (simp add: fun_eq_iff)
qed

lemma populate_template_result:
  assumes "files fs tp = Some (Spreadsheet ws)" "tp \<noteq> op" "writable fs op"
    and "populate_sheet items ws = Inr out"
  shows "populate_template items tp op fs =
    (True, fs\<lparr>files := (files fs)(op \<mapsto>
        Spreadsheet (filter (\<lambda>(k, c). c \<noteq> empty_cell) out))\<rparr>)"
  using assms by (simp add: populate_template_def copy2_def load_workbook_def save_def)

lemma populate_template_ok_iff:
  "fst (populate_template items tp op fs) \<longleftrightarrow>
     (\<exists>ws out. files fs tp = Some (Spreadsheet ws) \<and> populate_sheet items ws = Inr out) \<and>
     tp \<noteq> op \<and> writable fs op"
  by (auto simp: populate_template_def copy2_def load_workbook_def save_def
      split: option.splits file_content.splits sum.splits if_splits)

lemma populate_template_others:
  "p \<noteq> op \<Longrightarrow> files (snd (populate_template items tp op fs)) p = files fs p"
  by (auto simp: populate_template_def copy2_def load_workbook_def save_def
      split: option.splits file_content.splits sum.splits if_splits)

lemma populate_template_template:
  "files (snd (populate_template items tp op fs)) tp = files fs tp"
proof (cases "tp = op")
  case True
  then show ?thesis
    by (auto simp: populate_template_def copy2_def split: option.splits)
next
  case False
  then show ?thesis by (rule populate_template_others)
qed

lemma populate_template_saved:
  assumes "files fs tp = Some (Spreadsheet ws)" "tp \<noteq> op" "writable fs op"
    and "populate_sheet items ws = Inr out" "valid_ws ws"
  shows "cell_at (saved_sheet (snd (populate_template items tp op fs)) op) = cell_at out"
proof -
  from populate_template_result[OF assms(1-4)]
  have "saved_sheet (snd (populate_template items tp op fs)) op
        = filter (\<lambda>(k, c). c \<noteq> empty_cell) out"
    by (simp add: saved_sheet_def)
  moreover have "distinct (map fst out)"
    using assms(5,4) by (intro populate_sheet_distinct[of ws items out]) (simp_all add: valid_ws_def)
  ultimately show ?thesis by (simp add: cell_at_saved)
qed

lemma insertion_row_at:
  assumes "start_row (header_row (template_columns ws)) \<le> r" "r \<le> max_row ws + 1"
    and "is_blank (cvalue (cell_at ws r (line_item_col_idx (template_columns ws))))"
    and "\<forall>r'. start_row (header_row (template_columns ws)) \<le> r' \<and> r' < r
           \<longrightarrow> \<not> is_blank (cvalue (cell_at ws r' (line_item_col_idx (template_columns ws))))"
  shows "insertion_row ws = r"
proof -
  have "r < max_row (analysed_sheet ws) + 20"
    using assms(2) analysed_max_row(2)[of ws] by simp
  with assms have
    "find (\<lambda>r. is_blank (cvalue (cell_at ws r (line_item_col_idx (template_columns ws)))))
       [start_row (header_row (template_columns ws))..<max_row (analysed_sheet ws) + 20] = Some r"
    by (simp only: find_upt_Some)
  then show ?thesis by (simp add: insertion_row_eq)
qed

lemma header_at_first_cell:
  assumes "exact_match (cvalue (cell_at ws 1 c))" "1 \<le> c" "c \<le> 10"
    and "\<forall>c'. 1 \<le> c' \<and> c' < c \<longrightarrow> \<not> exact_match (cvalue (cell_at ws 1 c'))"
    and "is_blank (cvalue (cell_at ws 2 c))" "1 \<le> max_row ws"
  shows "line_item_col_idx (template_columns ws) = c" "header_row (template_columns ws) = Some 1"
    "insertion_row ws = 2"
proof -
  have "found_header ws = Some (1, c)"
    using assms(1-4) by (intro found_header_exact) auto
  then show c: "line_item_col_idx (template_columns ws) = c"
    and h: "header_row (template_columns ws) = Some 1"
    by (simp_all add: template_columns_eq)
  show "insertion_row ws = 2"
    using assms(5,6) by (intro insertion_row_at) (auto simp: c h start_row_def)
qed



lemma ws_total_facts:
  "valid_ws ws_total" "line_item_col_idx (template_columns ws_total) = 1"
  "insertion_row ws_total = 2"
proof -
  show "valid_ws ws_total" by (simp add: valid_ws_def ws_total_def)
  show "line_item_col_idx (template_columns ws_total) = 1"
    by (rule header_at_first_cell)
       (simp_all add: cell_at_def ws_total_def exact_examples max_row_def empty_cell_def)
  show "insertion_row ws_total = 2"
    by (rule header_at_first_cell(3)[of _ 1])
       (simp_all add: cell_at_def ws_total_def exact_examples max_row_def empty_cell_def)
qed

lemma fs_with_ok:
  "list_all (\<lambda>x. accepted_string (line_item x)) items
     \<Longrightarrow> fst (populate_template items ''template.xlsx'' ''out.xlsx'' (fs_with ws))"
  "files (fs_with ws) ''template.xlsx'' = Some (Spreadsheet ws)"
  by (simp_all add: populate_template_ok_iff fs_with_def populate_sheet_Inr_iff)

lemma written_value_cell:
  assumes "list_all (\<lambda>x. accepted_string (line_item x)) items"
  shows "written_value items ws r c =
    Inr (if insertion_row ws \<le> r \<and> r < insertion_row ws + length items \<and> c = 2
         then VFloat (amount (items ! (r - insertion_row ws)))
         else if insertion_row ws \<le> r \<and> r < insertion_row ws + length items
                 \<and> c = line_item_col_idx (template_columns ws)
         then VStr (take 32767 (line_item (items ! (r - insertion_row ws))))
         else cvalue (cell_at ws r c))"
proof -
  from assms obtain out where out: "populate_sheet items ws = Inr out"
    using populate_sheet_Inr_iff[of items ws] by blast
  show ?thesis
    unfolding written_value_def out by (simp add: populate_sheet_cell[OF out])
qed





lemma ws_total_cells:
  "cell_at ws_total r c =
    (if (r, c) = (1, 1) then \<lparr>cvalue = VStr ''Line Item'', cstyle = 0\<rparr>
     else if (r, c) = (3, 1) then \<lparr>cvalue = VStr ''TOTAL'', cstyle = 4\<rparr>
     else if (r, c) = (3, 2) then \<lparr>cvalue = VStr ''=SUM(B2:B2)'', cstyle = 4\<rparr>
     else empty_cell)"
  by (simp add: cell_at_def ws_total_def)

text \<open>
  Claim C5 on a template with a total below the first blank row: the header in A1, row 2
  blank, the label \<^verbatim>\<open>TOTAL\<close> in A3 and the formula \<^verbatim>\<open>=SUM(B2:B2)\<close> in B3. The call with two
  line items succeeds; the insertion row is 2, so the second item is written to row 3: its
  description replaces the label and its amount replaces the formula, in the worksheet and
  in the saved output.
\<close>

theorem populated_row_overwritten:
  "fst (populate_template two_items ''template.xlsx'' ''out.xlsx'' (fs_with ws_total)) \<and>
   insertion_row ws_total = 2 \<and>
   cvalue (cell_at ws_total 3 1) = VStr ''TOTAL'' \<and>
   cvalue (cell_at ws_total 3 2) = VStr ''=SUM(B2:B2)'' \<and>
   written_value two_items ws_total 3 1 = Inr (VStr ''EXCAVATION'') \<and>
   written_value two_items ws_total 3 2 = Inr (VFloat (Finite 15000)) \<and>
   cvalue (cell_at (saved_sheet (snd (populate_template two_items ''template.xlsx'' ''out.xlsx''
      (fs_with ws_total))) ''out.xlsx'') 3 1) = VStr ''EXCAVATION'' \<and>
   cvalue (cell_at (saved_sheet (snd (populate_template two_items ''template.xlsx'' ''out.xlsx''
      (fs_with ws_total))) ''out.xlsx'') 3 2) \<noteq> VStr ''=SUM(B2:B2)''"
proof -
  from two_items_accepted obtain out where out: "populate_sheet two_items ws_total = Inr out"
    using populate_sheet_Inr_iff[of two_items ws_total] by blast
  have f: "files (fs_with ws_total) ''template.xlsx'' = Some (Spreadsheet ws_total)"
    "''template.xlsx'' \<noteq> ''out.xlsx''" "writable (fs_with ws_total) ''out.xlsx''"
    by (simp_all add: fs_with_def)
  have s: "cell_at (saved_sheet (snd (populate_template two_items ''template.xlsx'' ''out.xlsx''
      (fs_with ws_total))) ''out.xlsx'') = cell_at out"
    by (rule populate_template_saved[OF f out ws_total_facts(1)])
  have w: "written_value two_items ws_total r c = Inr (cvalue (cell_at out r c))" for r c
    by (simp add: written_value_def out)
  have 1: "written_value two_items ws_total 3 1 = Inr (VStr ''EXCAVATION'')"
    using written_value_cell[OF two_items_accepted, of ws_total 3 1]
    by (simp add: ws_total_facts two_items_def)
  have 2: "written_value two_items ws_total 3 2 = Inr (VFloat (Finite 15000))"
    using written_value_cell[OF two_items_accepted, of ws_total 3 2]
    by (simp add: ws_total_facts two_items_def)
  from 1 2 have 3: "cvalue (cell_at out 3 1) = VStr ''EXCAVATION''"
    "cvalue (cell_at out 3 2) = VFloat (Finite 15000)"
    by (simp_all add: w)
  have 4: "fst (populate_template two_items ''template.xlsx'' ''out.xlsx'' (fs_with ws_total))"
    by (rule fs_with_ok(1)[OF two_items_accepted])
  from 1 2 3 4 show ?thesis
    by (simp add: s ws_total_facts ws_total_cells)
qed

lemma ws_styled_facts:
  "valid_ws ws_styled" "line_item_col_idx (template_columns ws_styled) = 1"
  "insertion_row ws_styled = 2"
proof -
  show "valid_ws ws_styled" by (simp add: valid_ws_def ws_styled_def)
  show "line_item_col_idx (template_columns ws_styled) = 1"
    by (rule header_at_first_cell)
       (simp_all add: cell_at_def ws_styled_def exact_examples max_row_def empty_cell_def)
  show "insertion_row ws_styled = 2"
    by (rule header_at_first_cell(3)[of _ 1])
       (simp_all add: cell_at_def ws_styled_def exact_examples max_row_def empty_cell_def)
qed

text \<open>
  Claim C6. For a valid template and an output path that is another, writable path, the call
  with no line items succeeds and the saved sheet shows the template's cell (value, formula
  and style) at every position; and no call, whatever its list and its outcome, changes the
  template file.
\<close>

theorem empty_list_round_trip:
  "(files fs tp = Some (Spreadsheet ws) \<and> valid_ws ws \<and> tp \<noteq> op \<and> writable fs op
      \<longrightarrow> fst (populate_template [] tp op fs) \<and>
          cell_at (saved_sheet (snd (populate_template [] tp op fs)) op) = cell_at ws) \<and>
   files (snd (populate_template items tp op fs)) tp = files fs tp"
proof -
  have "fst (populate_template [] tp op fs) \<and>
          cell_at (saved_sheet (snd (populate_template [] tp op fs)) op) = cell_at ws"
    if a: "files fs tp = Some (Spreadsheet ws) \<and> valid_ws ws \<and> tp \<noteq> op \<and> writable fs op"
  proof -
    from a have ok: "fst (populate_template [] tp op fs)"
      by (simp add: populate_template_ok_iff populate_sheet_Inr_iff)
    have out: "populate_sheet [] ws = Inr (scanned_sheet ws)"
      by (simp add: populate_sheet_eq enumerate_simps)
    from a have f: "files fs tp = Some (Spreadsheet ws)" "tp \<noteq> op" "writable fs op"
      "valid_ws ws"
      by simp_all
    have "cell_at (saved_sheet (snd (populate_template [] tp op fs)) op)
          = cell_at (scanned_sheet ws)"
      by (rule populate_template_saved[OF f(1-3) out f(4)])
    also have "\<dots> = cell_at ws" by (rule scanned_cell_at)
    finally show ?thesis using ok by simp
  qed
  then show ?thesis by (simp add: populate_template_template)
qed

theorem empty_list_round_trip_witness:
  "fst (populate_template [] ''template.xlsx'' ''out.xlsx'' (fs_with ws_styled)) \<and>
   cell_at (saved_sheet (snd (populate_template [] ''template.xlsx'' ''out.xlsx''
      (fs_with ws_styled))) ''out.xlsx'') = cell_at ws_styled \<and>
   files (snd (populate_template two_items ''template.xlsx'' ''out.xlsx'' (fs_with ws_styled)))
      ''template.xlsx'' = Some (Spreadsheet ws_styled)"
  using empty_list_round_trip[of "fs_with ws_styled" "''template.xlsx''" ws_styled "''out.xlsx''"
      two_items]
  by (simp add: ws_styled_facts fs_with_def)

lemma dropWhile_rev_dropWhile:
  "dropWhile P (rev (dropWhile P (rev (dropWhile P s)))) = rev (dropWhile P (rev (dropWhile P s)))"
proof -
  let ?t = "dropWhile P s"
  let ?u = "rev (dropWhile P (rev ?t))"
  show ?thesis
  proof (cases "?u = []")
    case True
    show ?thesis unfolding True by simp
  next
    case False
    have t: "?t = ?u @ rev (takeWhile P (rev ?t))"
      by (metis rev_append rev_rev_ident takeWhile_dropWhile_id)
    with False have "hd ?u = hd ?t" by (metis hd_append2)
    moreover have "?t \<noteq> []"
    proof
      assume e: "?t = []"
      show False using False unfolding e by simp
    qed
    then have "\<not> P (hd ?t)" by (rule hd_dropWhile)
    ultimately have "\<not> P (hd ?u)" by simp
    with False show ?thesis by (cases ?u) auto
  qed
qed

lemma strip_strip: "strip (strip s) = strip s"
  unfolding strip_def dropWhile_rev_dropWhile by (simp add: dropWhile_idem)

lemma validate_items_mem:
  "validate_items env entries acc = Inr out \<Longrightarrow> it \<in> set out \<Longrightarrow>
     it \<in> set acc \<or>
     (\<exists>kvs l a. PDict kvs \<in> set entries \<and> map_of kvs ''line_item'' = Some l \<and>
        map_of kvs ''amount'' = Some a \<and> line_item it = strip (py_str env l) \<and>
        py_float env a = Inr (amount it))"
proof (induction entries arbitrary: acc)
  case Nil
  then show ?case by simp
next
  case (Cons x xs)
  have skip: ?case if "validate_items env (x # xs) acc = validate_items env xs acc"
    using Cons.IH[of acc] Cons.prems that by auto
  show ?case
  proof (cases x)
    case (PDict kvs)
    show ?thesis
    proof (cases "map_of kvs ''line_item''")
      case None
      with PDict show ?thesis by (intro skip) simp
    next
      case l: (Some l)
      show ?thesis
      proof (cases "map_of kvs ''amount''")
        case None
        with PDict l show ?thesis by (intro skip) simp
      next
        case a: (Some a)
        show ?thesis
        proof (cases "py_float env a")
          case (Inl e)
          show ?thesis
          proof (cases "e = ValueError \<or> e = TypeError")
            case True
            with PDict l a Inl show ?thesis by (intro skip) auto
          next
            case False
            with PDict l a Inl Cons.prems show ?thesis by auto
          qed
        next
          case (Inr amt)
          let ?new = "\<lparr>line_item = strip (py_str env l), amount = amt\<rparr>"
          from PDict l a Inr Cons.prems
          have "validate_items env xs (acc @ [?new]) = Inr out" by simp
          from Cons.IH[OF this Cons.prems(2)] have
            "it \<in> set (acc @ [?new]) \<or>
             (\<exists>kvs l a. PDict kvs \<in> set xs \<and> map_of kvs ''line_item'' = Some l \<and>
                map_of kvs ''amount'' = Some a \<and> line_item it = strip (py_str env l) \<and>
                py_float env a = Inr (amount it))" .
          then show ?thesis using PDict l a Inr by auto
        qed
      qed
    qed
  qed (rule skip, simp)+
qed

text \<open>
  Claim C7, as the code has it. Every line item that \<open>parse_with_ai\<close> returns comes from an
  entry of the parsed array that has both keys: its amount is the float that \<open>float\<close> gives
  for the entry's amount, and its description is the entry's \<open>line_item\<close> as a string,
  trimmed. No sign, finiteness or emptiness check is made.
\<close>

theorem parsed_item_shape:
  assumes "model = Some generate" "generate text_content = Inr response_text"
    and "json_loads env (clean_response response_text) = Inr (PList entries)"
    and "it \<in> set (parse_with_ai env model text_content)"
  shows "strip (line_item it) = line_item it \<and>
         (\<exists>kvs l a. PDict kvs \<in> set entries \<and> map_of kvs ''line_item'' = Some l \<and>
            map_of kvs ''amount'' = Some a \<and> line_item it = strip (py_str env l) \<and>
            py_float env a = Inr (amount it))"
proof -
  have p: "parse_with_ai env model text_content =
      (case validate_items env entries [] of Inl e \<Rightarrow> [] | Inr validated \<Rightarrow> validated)"
    using assms(1-3) by (simp add: parse_with_ai_def)
  obtain out where out: "validate_items env entries [] = Inr out" "it \<in> set out"
  proof (cases "validate_items env entries []")
    case (Inl e)
    with p assms(4) show ?thesis by simp
  next
    case (Inr out)
    with p assms(4) that show ?thesis by simp
  qed
  from validate_items_mem[OF this] have
    ex: "\<exists>kvs l a. PDict kvs \<in> set entries \<and> map_of kvs ''line_item'' = Some l \<and>
            map_of kvs ''amount'' = Some a \<and> line_item it = strip (py_str env l) \<and>
            py_float env a = Inr (amount it)"
    by simp
  then have "strip (line_item it) = line_item it" by (auto simp: strip_strip)
  with ex show ?thesis by blast
qed

lemma sub_fence_json_none: "CHR 0x60 \<notin> set s \<Longrightarrow> sub_fence_json s = s"
  by (induction s) auto

lemma sub_fence_end_none: "CHR 0x60 \<notin> set s \<Longrightarrow> sub_fence_end s = s"
  by (induction s) auto

lemma strip_none:
  assumes "s \<noteq> []" "\<not> is_space (hd s)" "\<not> is_space (last s)"
  shows "strip s = s"
proof -
  from assms(1,2) have "dropWhile is_space s = s" by (cases s) auto
  moreover from assms(1,3) have "dropWhile is_space (rev s) = rev s"
    by (cases "rev s") (auto simp: last_rev[symmetric] simp del: last_rev)
  ultimately show ?thesis by (simp add: strip_def)
qed

lemma clean_response_none:
  assumes "CHR 0x60 \<notin> set s" "s \<noteq> []" "\<not> is_space (hd s)" "\<not> is_space (last s)"
  shows "clean_response s = s"
  using assms by (simp add: clean_response_def strip_none sub_fence_json_none sub_fence_end_none)

lemma clean_examples:
  "clean_response resp_na = resp_na"
  "clean_response resp_negative = resp_negative"
  by (rule clean_response_none, simp_all add: resp_na_def resp_negative_def is_space_def)+

lemma resp_distinct: "resp_negative \<noteq> resp_na"
  by (simp add: resp_na_def resp_negative_def)

lemma parse_negative:
  "parse_with_ai example_env (Some (\<lambda>t. Inr resp_negative)) ''doc''
     = [\<lparr>line_item = [], amount = Finite (- 5)\<rparr>]"
  by (simp add: parse_with_ai_def example_env_def clean_examples example_loads_def resp_distinct
      float_of_int_def round_half_even_def strip_def is_space_def)

theorem negative_blank_item_counterexample:
  "parse_with_ai example_env (Some (\<lambda>t. Inr resp_negative)) ''doc''
     = [\<lparr>line_item = [], amount = Finite (- 5)\<rparr>] \<and>
   strip (line_item \<lparr>line_item = [], amount = Finite (- 5)\<rparr>) = [] \<and> (- 5 :: rat) < 0"
  by (simp add: parse_negative strip_def)

theorem parsed_item_shape_witness:
  "parse_with_ai example_env (Some (\<lambda>t. Inr resp_na)) ''doc''
     = [\<lparr>line_item = ''PERMITS'', amount = Finite 10000\<rparr>] \<and>
   strip ''PERMITS'' = ''PERMITS''"
proof -
  have p: "parse_with_ai example_env (Some (\<lambda>t. Inr resp_na)) ''doc''
     = [\<lparr>line_item = ''PERMITS'', amount = Finite 10000\<rparr>]"
    by (simp add: parse_with_ai_def example_env_def clean_examples example_loads_def
      float_of_int_def round_half_even_def strip_def is_space_def)
  have "json_loads example_env (clean_response resp_na) = Inr (PList
      [PDict [(''line_item'', PStr ''PERMITS''), (''amount'', PInt 10000)],
       PDict [(''line_item'', PStr ''X''), (''amount'', PStr ''N/A'')]])"
    by (simp add: example_env_def clean_examples example_loads_def)
  from parsed_item_shape[where model = "Some (\<lambda>t. Inr resp_na)" and generate = "\<lambda>t. Inr resp_na"
      and text_content = "''doc''" and response_text = resp_na and env = example_env
      and it = "\<lparr>line_item = ''PERMITS'', amount = Finite 10000\<rparr>", OF refl refl this]
  have "strip ''PERMITS'' = ''PERMITS''" by (simp add: p)
  with p show ?thesis by simp
qed

lemma parse_with_ai_unparseable:
  "json_loads env (clean_response r) = Inl e \<Longrightarrow> parse_with_ai env (Some (\<lambda>t. Inr r)) t = []"
  by (simp add: parse_with_ai_def)

lemma parse_with_ai_not_array:
  "json_loads env (clean_response r) = Inr v \<Longrightarrow> (\<forall>xs. v \<noteq> PList xs)
     \<Longrightarrow> parse_with_ai env (Some (\<lambda>t. Inr r)) t = []"
  by (cases v) (simp_all add: parse_with_ai_def)

lemma validate_items_skip:
  assumes "map_of kvs ''line_item'' = Some l" "map_of kvs ''amount'' = Some a"
    and "py_float env a = Inl ValueError \<or> py_float env a = Inl TypeError"
  shows "validate_items env (PDict kvs # rest) acc = validate_items env rest acc"
  using assms by auto

lemma validate_items_overflow:
  assumes "map_of kvs ''line_item'' = Some l" "map_of kvs ''amount'' = Some a"
    and "py_float env a = Inl OverflowError"
  shows "validate_items env (PDict kvs # rest) acc = Inl OverflowError"
  using assms by simp

lemma clean_overflow: "clean_response resp_overflow = resp_overflow"
  by (rule clean_response_none) (simp_all add: resp_overflow_def is_space_def)

lemma resp_overflow_distinct: "resp_overflow \<noteq> resp_na" "resp_overflow \<noteq> resp_negative"
  by (simp_all add: resp_na_def resp_negative_def resp_overflow_def)

text \<open>
  Claim C8 on two responses. The entry with the amount \<open>"N/A"\<close> is dropped and its sibling
  kept; the entry whose amount is the integer \<open>10^400\<close> makes \<open>float\<close> raise
  \<open>OverflowError\<close>, which the inner handler does not catch, and the whole result is empty.
\<close>

theorem overflowing_amount_empties_result:
  "parse_with_ai example_env (Some (\<lambda>t. Inr resp_na)) ''doc''
     = [\<lparr>line_item = ''PERMITS'', amount = Finite 10000\<rparr>] \<and>
   parse_with_ai example_env (Some (\<lambda>t. Inr resp_overflow)) ''doc'' = []"
proof -
  have "parse_with_ai example_env (Some (\<lambda>t. Inr resp_na)) ''doc''
     = [\<lparr>line_item = ''PERMITS'', amount = Finite 10000\<rparr>]"
    by (simp add: parse_with_ai_def example_env_def clean_examples example_loads_def
      float_of_int_def round_half_even_def strip_def is_space_def)
  moreover have "float_of_int (10 ^ 400) = Inl OverflowError"
    by (simp add: float_of_int_def)
  then have "parse_with_ai example_env (Some (\<lambda>t. Inr resp_overflow)) ''doc'' = []"
    by (simp add: parse_with_ai_def example_env_def clean_overflow example_loads_def
      resp_overflow_distinct float_of_int_def round_half_even_def)
  ultimately show ?thesis by simp
qed

lemma suffix_examples:
  "path_suffix ''uploads/Cost.Breakdown.PDF'' = ''.PDF''"
  "path_suffix ''scan.png'' = ''.png''"
  "path_suffix ''dir.d/.hidden'' = []"
  "path_suffix ''notes.'' = []"
  "path_suffix ''notes.txt'' = ''.txt''"
  "path_name ''uploads/scan.png'' = ''scan.png''"
  "path_name ''scan.png/.'' = ''scan.png''"
  by (simp_all add: path_suffix_def path_name_def path_parts_def)

text \<open>
  Claim C9, as the code has it. An exception raised by the test for the file leaves
  \<open>extract_text_from_file\<close> as it is, and a path that does not exist raises
  \<open>FileNotFoundError\<close>. For a path that exists no exception leaves the function: an
  unsupported extension, a PDF that no library extracts (PyMuPDF there and failing, PyPDF2
  in its place and failing, or neither there) and a spreadsheet that cannot be read give the
  empty string; an image without OCR gives the message \<^verbatim>\<open>[OCR NOT AVAILABLE]\<close> and an image
  whose OCR fails gives the message \<^verbatim>\<open>[OCR FAILED]\<close> with the text of the exception, both
  naming the file.
\<close>

theorem extraction_failures:
  "(path_exists env p = Inl e \<longrightarrow> extract_text_from_file env p = Inl e) \<and>
   (path_exists env p = Inr False \<longrightarrow> extract_text_from_file env p = Inl FileNotFoundError) \<and>
   (path_exists env p = Inr True \<longrightarrow>
      (\<exists>t. extract_text_from_file env p = Inr t) \<and>
      (lower (path_suffix p) \<notin> set [''.pdf'', ''.png'', ''.jpg'', ''.jpeg'', ''.bmp'', ''.tiff'',
                                     ''.xlsx'', ''.xls'']
         \<longrightarrow> extract_text_from_file env p = Inr []) \<and>
      (lower (path_suffix p) = ''.pdf'' \<and>
       (pymupdf_available env \<and> fitz_pages env p = Inl x \<or>
        \<not> pymupdf_available env \<and> pypdf2_available env \<and> pypdf2_pages env p = Inl x \<or>
        \<not> pymupdf_available env \<and> \<not> pypdf2_available env)
         \<longrightarrow> extract_text_from_file env p = Inr []) \<and>
      (lower (path_suffix p) \<in> set [''.xlsx'', ''.xls''] \<and> excel_sheets env p = Inl x
         \<longrightarrow> extract_text_from_file env p = Inr []) \<and>
      (lower (path_suffix p) \<in> set [''.png'', ''.jpg'', ''.jpeg'', ''.bmp'', ''.tiff''] \<and>
       \<not> pytesseract_available env
         \<longrightarrow> extract_text_from_file env p =
               Inr (''[OCR NOT AVAILABLE] Image file: '' @ path_name p @
                    ''. Please convert to PDF or use text-based documents for processing.'')) \<and>
      (lower (path_suffix p) \<in> set [''.png'', ''.jpg'', ''.jpeg'', ''.bmp'', ''.tiff''] \<and>
       pytesseract_available env \<and> image_to_string env p = Inl msg
         \<longrightarrow> extract_text_from_file env p =
               Inr (''[OCR FAILED] Image file: '' @ path_name p @ ''. Error: '' @ msg)))"
proof (intro conjI impI)
  assume "path_exists env p = Inl e"
  then show "extract_text_from_file env p = Inl e"
    by (simp add: extract_text_from_file_def)
next
  assume "path_exists env p = Inr False"
  then show "extract_text_from_file env p = Inl FileNotFoundError"
    by (simp add: extract_text_from_file_def)
next
  assume "path_exists env p = Inr True"
  then show "\<exists>t. extract_text_from_file env p = Inr t"
    by (simp add: extract_text_from_file_def Let_def split: sum.splits)
next
  assume "path_exists env p = Inr True"
    and "lower (path_suffix p) \<notin> set [''.pdf'', ''.png'', ''.jpg'', ''.jpeg'', ''.bmp'', ''.tiff'',
                                     ''.xlsx'', ''.xls'']"
  then show "extract_text_from_file env p = Inr []"
    by (simp add: extract_text_from_file_def Let_def)
next
  assume "path_exists env p = Inr True"
    and "lower (path_suffix p) = ''.pdf'' \<and>
       (pymupdf_available env \<and> fitz_pages env p = Inl x \<or>
        \<not> pymupdf_available env \<and> pypdf2_available env \<and> pypdf2_pages env p = Inl x \<or>
        \<not> pymupdf_available env \<and> \<not> pypdf2_available env)"
  then show "extract_text_from_file env p = Inr []"
    by (auto simp: extract_text_from_file_def Let_def extract_from_pdf_def)
next
  assume "path_exists env p = Inr True"
    and "lower (path_suffix p) \<in> set [''.xlsx'', ''.xls''] \<and> excel_sheets env p = Inl x"
  then show "extract_text_from_file env p = Inr []"
    by (auto simp: extract_text_from_file_def Let_def extract_from_excel_def)
next
  assume "path_exists env p = Inr True"
    and "lower (path_suffix p) \<in> set [''.png'', ''.jpg'', ''.jpeg'', ''.bmp'', ''.tiff''] \<and>
       \<not> pytesseract_available env"
  then show "extract_text_from_file env p =
               Inr (''[OCR NOT AVAILABLE] Image file: '' @ path_name p @
                    ''. Please convert to PDF or use text-based documents for processing.'')"
    by (auto simp: extract_text_from_file_def Let_def extract_from_image_def)
next
  assume "path_exists env p = Inr True"
    and "lower (path_suffix p) \<in> set [''.png'', ''.jpg'', ''.jpeg'', ''.bmp'', ''.tiff''] \<and>
       pytesseract_available env \<and> image_to_string env p = Inl msg"
  then show "extract_text_from_file env p =
               Inr (''[OCR FAILED] Image file: '' @ path_name p @ ''. Error: '' @ msg)"
    by (auto simp: extract_text_from_file_def Let_def extract_from_image_def)
qed

theorem missing_file_raises_counterexample:
  "extract_text_from_file env_no_files ''missing.pdf'' = Inl FileNotFoundError \<and>
   extract_text_from_file env_name_too_long ''missing.pdf'' = Inl OSError \<and>
   extract_text_from_file env_bare ''scan.png'' =
     Inr ''[OCR NOT AVAILABLE] Image file: scan.png. Please convert to PDF or use text-based documents for processing.''"
  by (simp add: extract_text_from_file_def env_no_files_def env_bare_def env_name_too_long_def
      Let_def path_suffix_def path_name_def path_parts_def lower_def lower_char_def
      extract_from_image_def)

theorem extraction_failures_witness:
  "extract_text_from_file env_name_too_long ''budget.pdf'' = Inl OSError \<and>
   extract_text_from_file env_no_files ''budget.pdf'' = Inl FileNotFoundError \<and>
   extract_text_from_file env_bare ''notes.txt'' = Inr [] \<and>
   extract_text_from_file env_bare ''budget.PDF'' = Inr [] \<and>
   extract_text_from_file env_bare ''budget.xlsx'' = Inr [] \<and>
   extract_text_from_file env_bare ''uploads/site.JPG'' =
     Inr ''[OCR NOT AVAILABLE] Image file: site.JPG. Please convert to PDF or use text-based documents for processing.'' \<and>
   extract_text_from_file env_ocr_fails ''uploads/site.JPG'' =
     Inr ''[OCR FAILED] Image file: site.JPG. Error: tesseract is not installed''"
proof -
  have s: "lower (path_suffix ''notes.txt'') = ''.txt''"
    "lower (path_suffix ''budget.PDF'') = ''.pdf''"
    "lower (path_suffix ''budget.xlsx'') = ''.xlsx''"
    "lower (path_suffix ''uploads/site.JPG'') = ''.jpg''"
    "path_name ''uploads/site.JPG'' = ''site.JPG''"
    by (simp_all add: path_suffix_def path_name_def path_parts_def lower_def lower_char_def)
  have e: "path_exists env_bare p = Inr True" "path_exists env_ocr_fails p = Inr True"
    "path_exists env_no_files p = Inr False" "path_exists env_name_too_long p = Inl OSError" for p
    by (simp_all add: env_bare_def env_ocr_fails_def env_no_files_def env_name_too_long_def)
  have l: "\<not> pymupdf_available env_bare" "\<not> pypdf2_available env_bare"
    "\<not> pytesseract_available env_bare" "pytesseract_available env_ocr_fails"
    "excel_sheets env_bare ''budget.xlsx'' = Inl (LibraryError ''not a workbook'')"
    "image_to_string env_ocr_fails ''uploads/site.JPG'' = Inl ''tesseract is not installed''"
    by (simp_all add: env_bare_def env_ocr_fails_def env_no_files_def)
  from extraction_failures[of env_name_too_long "''budget.pdf''" OSError] e
  have 0: "extract_text_from_file env_name_too_long ''budget.pdf'' = Inl OSError" by blast
  from extraction_failures[of env_no_files "''budget.pdf''"] e
  have 1: "extract_text_from_file env_no_files ''budget.pdf'' = Inl FileNotFoundError" by blast
  from extraction_failures[of env_bare "''notes.txt''"] e
  have 2: "extract_text_from_file env_bare ''notes.txt'' = Inr []" by (simp add: s)
  from extraction_failures[of env_bare "''budget.PDF''"] e l
  have 3: "extract_text_from_file env_bare ''budget.PDF'' = Inr []" by (simp add: s)
  from extraction_failures[of env_bare "''budget.xlsx''" _ "LibraryError ''not a workbook''"] e l
  have 4: "extract_text_from_file env_bare ''budget.xlsx'' = Inr []" by (simp add: s)
  from extraction_failures[of env_bare "''uploads/site.JPG''"] e l
  have 5: "extract_text_from_file env_bare ''uploads/site.JPG'' =
     Inr ''[OCR NOT AVAILABLE] Image file: site.JPG. Please convert to PDF or use text-based documents for processing.''"
    by (simp add: s)
  from extraction_failures[of env_ocr_fails "''uploads/site.JPG''" _ _
      "''tesseract is not installed''"] e l
  have 6: "extract_text_from_file env_ocr_fails ''uploads/site.JPG'' =
     Inr ''[OCR FAILED] Image file: site.JPG. Error: tesseract is not installed''"
    by (simp add: s)
  from 0 1 2 3 4 5 6 show ?thesis by blast
qed

end
